theory Spec2Isabelle
  imports Complex_Main "HOL-Library.Word" "HOL-Library.Log_Nat" "HOL-Library.Multiset"
begin

unbundle bit_operations_syntax

chapter \<open>Real-time latency measurement: time arithmetic, statistics, configuration\<close>

text \<open>
  A shallow embedding of \<^verbatim>\<open>src/rt_utils.h\<close> and \<^verbatim>\<open>src/rt_tuto.cpp\<close>.

  Platform: the program targets the 64-bit Raspberry Pi 4 (LP64), so \<^verbatim>\<open>time_t\<close> and
  \<^verbatim>\<open>long\<close> are signed 64-bit, \<^verbatim>\<open>int\<close> is signed 32-bit and \<^verbatim>\<open>uint64_t\<close>,
  \<^verbatim>\<open>size_t\<close> are unsigned 64-bit. A machine integer of width \<open>w\<close> is a \<open>w word\<close>;
  \<open>uint\<close> reads it as unsigned and \<open>sint\<close> as two's complement; \<open>\<le>s\<close> and \<open><s\<close> are the
  signed comparisons. Conversions between integer types keep the low bits, which is what
  \<^verbatim>\<open>static_cast\<close> does. Overflow of a signed operation is undefined in C++; the model wraps,
  as the machine instruction does, and every theorem that speaks of exact values states
  the range in which no signed operation overflows.
\<close>

section \<open>Data model\<close>

text \<open>\<^verbatim>\<open>struct timespec\<close>: whole seconds (\<^verbatim>\<open>time_t\<close>) and nanoseconds (\<^verbatim>\<open>long\<close>).\<close>

record timespec =
  tv_sec :: "64 word"
  tv_nsec :: "64 word"

text \<open>
  The instant a \<open>timespec\<close> stands for, in nanoseconds, as a mathematical integer.
  It is a notion of the specification; the program never computes it without wrap-around.
\<close>

definition instant_ns :: "timespec \<Rightarrow> int" where
  "instant_ns ts = sint (tv_sec ts) * 1000000000 + sint (tv_nsec ts)"

section \<open>Time arithmetic (\<^verbatim>\<open>rt_utils.h\<close>)\<close>

text \<open>
  \<^verbatim>\<open>timespec_diff_ns\<close>: both operands are converted to \<^verbatim>\<open>uint64_t\<close> nanosecond
  counts (the casts keep the bits, the product and the sum wrap modulo \<open>2^64\<close>), compared
  as unsigned numbers and subtracted only when \<^verbatim>\<open>end_ns > start_ns\<close>.
\<close>

definition timespec_diff_ns :: "timespec \<Rightarrow> timespec \<Rightarrow> 64 word" where
  "timespec_diff_ns start end' =
     (let start_ns = tv_sec start * 1000000000 + tv_nsec start;
          end_ns = tv_sec end' * 1000000000 + tv_nsec end'
      in if end_ns > start_ns then end_ns - start_ns else 0)"

text \<open>
  The \<^verbatim>\<open>while (ts.tv_nsec >= 1000000000)\<close> loop of \<^verbatim>\<open>timespec_add_us\<close>. The comparison
  is signed. Each round lowers a non-negative \<^verbatim>\<open>tv_nsec\<close>, which is why the loop ends.
\<close>

function carry_loop :: "timespec \<Rightarrow> timespec" where
  "carry_loop ts =
     (if 1000000000 \<le>s tv_nsec ts
      then carry_loop (ts\<lparr>tv_sec := tv_sec ts + 1, tv_nsec := tv_nsec ts - 1000000000\<rparr>)
      else ts)"
  by pat_completeness auto
termination
proof (relation "measure (\<lambda>ts. nat (sint (tv_nsec ts)))")
  show "wf (measure (\<lambda>ts. nat (sint (tv_nsec ts))))" by simp
next
  fix ts :: timespec
  assume "1000000000 \<le>s tv_nsec ts"
  then have ge: "1000000000 \<le> sint (tv_nsec ts)" by (simp add: word_sle_eq)
  have "sint (tv_nsec ts - 1000000000) = signed_take_bit 63 (sint (tv_nsec ts) - 1000000000)"
    by (simp add: sint_word_diff)
  also have "\<dots> = sint (tv_nsec ts) - 1000000000"
    using ge sint_lt [of "tv_nsec ts"] by (intro signed_take_bit_int_eq_self) simp_all
  finally show "(ts\<lparr>tv_sec := tv_sec ts + 1, tv_nsec := tv_nsec ts - 1000000000\<rparr>, ts)
        \<in> measure (\<lambda>ts. nat (sint (tv_nsec ts)))"
    using ge by simp
qed

declare carry_loop.simps [simp del]

text \<open>
  \<^verbatim>\<open>timespec_add_us\<close>: \<^verbatim>\<open>us * 1000\<close> is an unsigned 64-bit product, converted to
  \<^verbatim>\<open>long\<close> and added to \<^verbatim>\<open>tv_nsec\<close>; then the carry loop runs.
\<close>

definition timespec_add_us :: "timespec \<Rightarrow> 64 word \<Rightarrow> timespec" where
  "timespec_add_us ts us = carry_loop (ts\<lparr>tv_nsec := tv_nsec ts + us * 1000\<rparr>)"

section \<open>Latency statistics (\<^verbatim>\<open>rt_utils.h\<close>)\<close>

text \<open>
  \<^verbatim>\<open>struct LatencyStats\<close>. The two \<^verbatim>\<open>double\<close> fields are modelled as real numbers:
  the conversions of the integers to \<^verbatim>\<open>double\<close>, the division and the square root are
  exact in the model and rounded to binary64 in the program.
\<close>

record LatencyStats =
  min_ns :: "64 word"
  max_ns :: "64 word"
  avg_ns :: real
  stddev_ns :: real

text \<open>
  \<^verbatim>\<open>*std::min_element(first, last)\<close> and \<^verbatim>\<open>*std::max_element(first, last)\<close> on a
  non-empty range, given as its first element and the rest: a scan that keeps the
  smallest (largest) element seen, replaced only by a strictly smaller (larger) one.
\<close>

primrec min_element :: "64 word \<Rightarrow> 64 word list \<Rightarrow> 64 word" where
  "min_element smallest [] = smallest"
| "min_element smallest (x # xs) = min_element (if x < smallest then x else smallest) xs"

primrec max_element :: "64 word \<Rightarrow> 64 word list \<Rightarrow> 64 word" where
  "max_element largest [] = largest"
| "max_element largest (x # xs) = max_element (if largest < x then x else largest) xs"

text \<open>
  \<^verbatim>\<open>calculate_stats\<close>: the empty vector returns the zero-initialised record at once.
  Otherwise the sum is accumulated in a \<^verbatim>\<open>uint64_t\<close> (it wraps modulo \<open>2^64\<close>), the mean
  is that sum divided by the size, and a second loop accumulates the squared deviations.
\<close>

definition calculate_stats :: "64 word list \<Rightarrow> LatencyStats" where
  "calculate_stats latencies =
     (case latencies of
        [] \<Rightarrow> \<lparr>min_ns = 0, max_ns = 0, avg_ns = 0, stddev_ns = 0\<rparr>
      | first # rest \<Rightarrow>
          let sum = foldl (\<lambda>s lat. s + lat) (0 :: 64 word) latencies;
              avg = real (unat sum) / real (length latencies);
              variance = foldl (\<lambda>v lat. v + (real (unat lat) - avg) * (real (unat lat) - avg))
                           0 latencies / real (length latencies)
          in \<lparr>min_ns = min_element first rest, max_ns = max_element first rest,
              avg_ns = avg, stddev_ns = sqrt variance\<rparr>)"

section \<open>Percentile (\<^verbatim>\<open>rt_utils.h\<close>)\<close>

text \<open>
  In \<^verbatim>\<open>calculate_percentile\<close> a \<^verbatim>\<open>double\<close> is truncated to an index, so the rounding of
  the floating-point operations decides which element is returned, and the model rounds
  as the program does. A finite \<^verbatim>\<open>double\<close> is a rational number. Every operation
  computes the exact result and rounds it to the nearest binary64 value, ties to the even
  significand (the default rounding mode): the result is a multiple of
  \<open>2^(e - 52)\<close>, where \<open>2^e \<le> |x| < 2^(e+1)\<close>, and of \<open>2^(-1074)\<close> in the subnormal range.
  Infinities and NaN are not modelled; a result beyond the largest finite double stays a
  rational number (it is far outside every index).
\<close>

text \<open>\<open>ilog2 x\<close> is the exponent \<open>e\<close> of a positive \<open>x\<close>, from the bit lengths of its fraction.\<close>

definition ilog2 :: "rat \<Rightarrow> int" where
  "ilog2 x =
     (case quotient_of x of (a, b) \<Rightarrow>
        let k = bitlen a - bitlen b in if 2 powi k \<le> x then k else k - 1)"

definition round_half_even :: "rat \<Rightarrow> int" where
  "round_half_even m =
     (let f = \<lfloor>m\<rfloor>; d = m - of_int f
      in if d < 1 / 2 then f else if 1 / 2 < d then f + 1 else if even f then f else f + 1)"

definition round_to_double :: "rat \<Rightarrow> rat" where
  "round_to_double x =
     (if x = 0 then 0
      else let q = 2 powi (max (ilog2 \<bar>x\<bar> - 52) (- 1074))
           in of_int (round_half_even (x / q)) * q)"

text \<open>Division and multiplication of doubles, and \<^verbatim>\<open>static_cast<double>\<close> of a size.\<close>

definition fdiv :: "rat \<Rightarrow> rat \<Rightarrow> rat" where
  "fdiv a b = round_to_double (a / b)"

definition fmul :: "rat \<Rightarrow> rat \<Rightarrow> rat" where
  "fmul a b = round_to_double (a * b)"

definition size_to_double :: "nat \<Rightarrow> rat" where
  "size_to_double n = round_to_double (of_nat n)"

text \<open>\<^verbatim>\<open>static_cast<size_t>\<close> of a double discards the fractional part.\<close>

definition double_to_size :: "rat \<Rightarrow> int" where
  "double_to_size v = (if 0 \<le> v then \<lfloor>v\<rfloor> else \<lceil>v\<rceil>)"

text \<open>
  The index expression
  \<^verbatim>\<open>(percentile / 100.0) * static_cast<double>(latencies.size() - 1)\<close>, truncated.
\<close>

definition percentile_index :: "rat \<Rightarrow> nat \<Rightarrow> int" where
  "percentile_index percentile len =
     double_to_size (fmul (fdiv percentile 100) (size_to_double (len - 1)))"

text \<open>
  \<^verbatim>\<open>calculate_percentile\<close> returns 0 for the empty vector; otherwise it sorts the vector
  in place (the sorted vector is the first component of the result) and reads the element
  at the index. \<^verbatim>\<open>operator[]\<close> does not check the index, and the conversion to
  \<^verbatim>\<open>size_t\<close> is undefined for a negative value: where the index is not inside the vector
  the behaviour is undefined, which is \<open>None\<close> in the model.
\<close>

definition calculate_percentile :: "64 word list \<Rightarrow> rat \<Rightarrow> (64 word list \<times> 64 word) option" where
  "calculate_percentile latencies percentile =
     (if latencies = [] then Some (latencies, 0)
      else let sorted = sort latencies;
               index = percentile_index percentile (length sorted)
           in if 0 \<le> index \<and> index < int (length sorted)
              then Some (sorted, sorted ! nat index)
              else None)"

section \<open>Histogram (\<^verbatim>\<open>rt_utils.h\<close>)\<close>

text \<open>
  What \<^verbatim>\<open>print_histogram\<close> reports: no data, one identical value (in microseconds), or
  the bin width with the vector of counts. The drawing of the counts as coloured bars is
  presentation and is left out. Two failures of the C++ are values of the model: the
  division by \<^verbatim>\<open>num_bins = 0\<close>, and the \<^verbatim>\<open>std::length_error\<close> of
  \<^verbatim>\<open>std::vector<int> bins(num_bins, 0)\<close> for a negative \<^verbatim>\<open>num_bins\<close>.
\<close>

datatype hist_error = DivisionByZero | LengthError

datatype hist_output = NoData | AllIdentical "64 word" | Histogram "64 word" "32 word list"

text \<open>
  \<^verbatim>\<open>range / static_cast<uint64_t>(num_bins)\<close>, replaced by 1 when it is 0. The cast of the
  \<^verbatim>\<open>int\<close> extends the sign.
\<close>

definition hist_bin_width :: "64 word \<Rightarrow> 32 word \<Rightarrow> 64 word" where
  "hist_bin_width range_ns num_bins =
     (let bin_width = range_ns div scast num_bins
      in if bin_width = 0 then 1 else bin_width)"

text \<open>
  The body of the counting loop. \<^verbatim>\<open>static_cast<int>\<close> keeps the low 32 bits of the
  unsigned quotient, so a quotient of \<open>2^31\<close> or more can come out negative; the two
  guards follow in the order of the source and compare signed \<^verbatim>\<open>int\<close>s.
\<close>

definition bin_index :: "64 word \<Rightarrow> 64 word \<Rightarrow> 32 word \<Rightarrow> 64 word \<Rightarrow> 32 word" where
  "bin_index min_lat bin_width num_bins lat =
     (let i0 = (ucast ((lat - min_lat) div bin_width) :: 32 word);
          i1 = (if num_bins \<le>s i0 then num_bins - 1 else i0)
      in if i1 <s 0 then 0 else i1)"

text \<open>
  \<^verbatim>\<open>bins[bin_index]++\<close> on a vector of \<^verbatim>\<open>int\<close> counters. The index is inside the vector
  whenever \<^verbatim>\<open>num_bins\<close> is positive (lemma \<open>bin_index_in_range\<close> below).
\<close>

definition count_sample ::
    "64 word \<Rightarrow> 64 word \<Rightarrow> 32 word \<Rightarrow> 32 word list \<Rightarrow> 64 word \<Rightarrow> 32 word list" where
  "count_sample min_lat bin_width num_bins bins lat =
     (let i = nat (sint (bin_index min_lat bin_width num_bins lat))
      in bins[i := bins ! i + 1])"

definition fill_bins :: "64 word \<Rightarrow> 64 word \<Rightarrow> 32 word \<Rightarrow> 64 word list \<Rightarrow> 32 word list" where
  "fill_bins min_lat bin_width num_bins latencies =
     foldl (count_sample min_lat bin_width num_bins) (replicate (nat (sint num_bins)) 0) latencies"

definition print_histogram :: "64 word list \<Rightarrow> 32 word \<Rightarrow> hist_error + hist_output" where
  "print_histogram latencies num_bins =
     (case latencies of
        [] \<Rightarrow> Inr NoData
      | first # rest \<Rightarrow>
          let min_lat = min_element first rest;
              max_lat = max_element first rest
          in if min_lat = max_lat then Inr (AllIdentical (min_lat div 1000))
             else if num_bins = 0 then Inl DivisionByZero
             else let bin_width = hist_bin_width (max_lat - min_lat) num_bins
                  in if num_bins <s 0 then Inl LengthError
                     else Inr (Histogram bin_width
                            (fill_bins min_lat bin_width num_bins latencies)))"

text \<open>
  Notions used to state what the histogram does (they are not part of the program): the
  smallest and the largest sample, the bin width the program derives from them, and the
  bin the counting loop gives a sample, as an integer.
\<close>

definition lowest :: "64 word list \<Rightarrow> 64 word" where
  "lowest latencies = Min (set latencies)"

definition highest :: "64 word list \<Rightarrow> 64 word" where
  "highest latencies = Max (set latencies)"

definition width_of :: "64 word list \<Rightarrow> 32 word \<Rightarrow> 64 word" where
  "width_of latencies num_bins = hist_bin_width (highest latencies - lowest latencies) num_bins"

definition bin_of :: "64 word list \<Rightarrow> 32 word \<Rightarrow> 64 word \<Rightarrow> int" where
  "bin_of latencies num_bins lat =
     sint (bin_index (lowest latencies) (width_of latencies num_bins) num_bins lat)"

section \<open>Real-time configuration (\<^verbatim>\<open>rt_tuto.cpp\<close>)\<close>

text \<open>
  The operating system is the environment of \<^verbatim>\<open>configure_realtime\<close>. An \<open>os_env\<close> fixes
  what each of the three fallible calls returns (0 is success). The state records what the
  calls have done to the process, the calls issued in order, and the status lines
  printed (banners and explanations are left out). A call that returns 0 has its effect,
  a call that fails has none, and \<^verbatim>\<open>munlockall\<close> and the return to \<^verbatim>\<open>SCHED_OTHER\<close>
  always take effect; the program ignores their results.
\<close>

datatype os_call =
  Mlockall | SchedSetschedulerFifo | SchedSetschedulerOther | Munlockall | SetAffinity

datatype message =
  ErrorMlockall | MemoryLocked | ErrorSchedSetscheduler | SchedFifoActive
  | WarningAffinity | ThreadPinned | ErrorNoLatencyData | ConfigurationFailed
  | UnknownOption | Usage

record os_env =
  mlockall_ret :: int
  sched_setscheduler_ret :: int
  setaffinity_ret :: int

record rt_state =
  memory_locked :: bool
  sched_fifo :: bool
  pinned :: bool
  calls :: "os_call list"
  messages :: "message list"

definition initial_state :: rt_state where
  "initial_state =
     \<lparr>memory_locked = False, sched_fifo = False, pinned = False, calls = [], messages = []\<rparr>"

definition issue :: "os_call \<Rightarrow> rt_state \<Rightarrow> rt_state" where
  "issue c st = st\<lparr>calls := calls st @ [c]\<rparr>"

definition say :: "message \<Rightarrow> rt_state \<Rightarrow> rt_state" where
  "say m st = st\<lparr>messages := messages st @ [m]\<rparr>"

definition mlockall :: "os_env \<Rightarrow> rt_state \<Rightarrow> int \<times> rt_state" where
  "mlockall env st =
     (if mlockall_ret env = 0 then (0, (issue Mlockall st)\<lparr>memory_locked := True\<rparr>)
      else (mlockall_ret env, issue Mlockall st))"

definition munlockall :: "rt_state \<Rightarrow> rt_state" where
  "munlockall st = (issue Munlockall st)\<lparr>memory_locked := False\<rparr>"

definition sched_setscheduler_fifo :: "os_env \<Rightarrow> rt_state \<Rightarrow> int \<times> rt_state" where
  "sched_setscheduler_fifo env st =
     (if sched_setscheduler_ret env = 0
      then (0, (issue SchedSetschedulerFifo st)\<lparr>sched_fifo := True\<rparr>)
      else (sched_setscheduler_ret env, issue SchedSetschedulerFifo st))"

definition sched_setscheduler_other :: "rt_state \<Rightarrow> rt_state" where
  "sched_setscheduler_other st = (issue SchedSetschedulerOther st)\<lparr>sched_fifo := False\<rparr>"

definition pthread_setaffinity_np :: "os_env \<Rightarrow> rt_state \<Rightarrow> int \<times> rt_state" where
  "pthread_setaffinity_np env st =
     (if setaffinity_ret env = 0 then (0, (issue SetAffinity st)\<lparr>pinned := True\<rparr>)
      else (setaffinity_ret env, issue SetAffinity st))"

text \<open>
  \<^verbatim>\<open>configure_realtime\<close>, step by step as in the source: each \<^verbatim>\<open>!= 0\<close> test, each early
  \<^verbatim>\<open>return false\<close>, the \<^verbatim>\<open>munlockall()\<close> on the second failure, and the final
  \<^verbatim>\<open>return true\<close> on both branches of the third test.
\<close>

definition configure_realtime :: "os_env \<Rightarrow> rt_state \<Rightarrow> bool \<times> rt_state" where
  "configure_realtime env st =
     (case mlockall env st of (r1, st1) \<Rightarrow>
        if r1 \<noteq> 0 then (False, say ErrorMlockall st1)
        else case sched_setscheduler_fifo env (say MemoryLocked st1) of (r2, st2) \<Rightarrow>
          if r2 \<noteq> 0 then (False, munlockall (say ErrorSchedSetscheduler st2))
          else case pthread_setaffinity_np env (say SchedFifoActive st2) of (r3, st3) \<Rightarrow>
            if r3 \<noteq> 0 then (True, say WarningAffinity st3)
            else (True, say ThreadPinned st3))"

section \<open>The periodic task (\<^verbatim>\<open>rt_tuto.cpp\<close>)\<close>

definition PERIOD_US :: "32 word" where
  "PERIOD_US = 1000"

definition NUM_ITERATIONS :: "32 word" where
  "NUM_ITERATIONS = 1000"

text \<open>
  The clock is the environment of \<^verbatim>\<open>run_periodic_task\<close>: \<open>clock_start\<close> is what the first
  \<^verbatim>\<open>clock_gettime\<close> reads, and \<open>wake_time k s\<close> is what \<^verbatim>\<open>clock_gettime\<close> reads in
  iteration \<open>k\<close> after \<^verbatim>\<open>clock_nanosleep\<close> has waited for the scheduled instant \<open>s\<close>.
\<close>

record clock_env =
  clock_start :: timespec
  wake_time :: "nat \<Rightarrow> timespec \<Rightarrow> timespec"

text \<open>
  The loop advances the schedule inline, with a single conditional carry (it does not
  call \<^verbatim>\<open>timespec_add_us\<close>): \<^verbatim>\<open>PERIOD_US * 1000\<close> is an \<^verbatim>\<open>int\<close> product converted to
  \<^verbatim>\<open>long\<close>.
\<close>

definition next_period_after :: "timespec \<Rightarrow> timespec" where
  "next_period_after next_period =
     (let np = next_period\<lparr>tv_nsec := tv_nsec next_period + scast (PERIOD_US * 1000)\<rparr>
      in if 1000000000 \<le>s tv_nsec np
         then np\<lparr>tv_sec := tv_sec np + 1, tv_nsec := tv_nsec np - 1000000000\<rparr>
         else np)"

text \<open>
  \<^verbatim>\<open>for (int i = 0; i < NUM_ITERATIONS; ++i)\<close>: wait, read the clock, append the latency,
  advance the schedule.
\<close>

function periodic_loop :: "(nat \<Rightarrow> timespec \<Rightarrow> timespec) \<Rightarrow> 32 word \<Rightarrow> timespec
    \<Rightarrow> 64 word list \<Rightarrow> 64 word list" where
  "periodic_loop wake i next_period latencies =
     (if i <s NUM_ITERATIONS
      then let now = wake (nat (sint i)) next_period;
               latency_ns = timespec_diff_ns next_period now
           in periodic_loop wake (i + 1) (next_period_after next_period)
                (latencies @ [latency_ns])
      else latencies)"
  by pat_completeness auto
termination
proof (relation "measure (\<lambda>(wake, i, next_period, latencies). nat (1000 - sint i))")
  show "wf (measure (\<lambda>(wake, i, next_period, latencies). nat (1000 - sint i)))" by simp
next
  fix wake :: "nat \<Rightarrow> timespec \<Rightarrow> timespec" and i :: "32 word" and next_period :: timespec
    and latencies :: "64 word list" and x xa
  assume "i <s NUM_ITERATIONS"
  then have lt: "sint i < 1000" by (simp add: word_sless_alt NUM_ITERATIONS_def)
  have "sint (i + 1) = signed_take_bit 31 (sint i + 1)" by (simp add: sint_word_add)
  also have "\<dots> = sint i + 1"
    using lt sint_ge [of i] by (intro signed_take_bit_int_eq_self) simp_all
  finally show "((wake, i + 1, next_period_after next_period, latencies @ [xa]),
        wake, i, next_period, latencies)
      \<in> measure (\<lambda>(wake, i, next_period, latencies). nat (1000 - sint i))"
    using lt by simp
qed

declare periodic_loop.simps [simp del]

definition run_periodic_task :: "clock_env \<Rightarrow> 64 word list" where
  "run_periodic_task clk = periodic_loop (wake_time clk) 0 (clock_start clk) []"

section \<open>Report and entry point (\<^verbatim>\<open>rt_tuto.cpp\<close>)\<close>

text \<open>
  \<^verbatim>\<open>display_results\<close> computes the statistics and the histogram with the default of 15
  bins; \<^verbatim>\<open>main\<close> handles the first command-line argument, configures, runs the periodic
  task, reports, and restores the default scheduling and unlocks memory. The result is the
  exit status, the final state and the samples when the task has run.
\<close>

definition display_results :: "64 word list \<Rightarrow> rt_state
    \<Rightarrow> (LatencyStats \<times> (hist_error + hist_output)) option \<times> rt_state" where
  "display_results latencies st =
     (if latencies = [] then (None, say ErrorNoLatencyData st)
      else (Some (calculate_stats latencies, print_histogram latencies 15), st))"

definition main :: "string list \<Rightarrow> os_env \<Rightarrow> clock_env \<Rightarrow> rt_state
    \<Rightarrow> int \<times> rt_state \<times> 64 word list option" where
  "main args env clk st =
     (case args of
        arg # _ \<Rightarrow>
          if arg = ''--help'' \<or> arg = ''-h'' then (0, say Usage st, None)
          else (1, say Usage (say UnknownOption st), None)
      | [] \<Rightarrow>
          (case configure_realtime env st of (ok, st1) \<Rightarrow>
             if \<not> ok then (1, say ConfigurationFailed st1, None)
             else let latencies = run_periodic_task clk;
                      st2 = snd (display_results latencies st1);
                      st3 = munlockall (sched_setscheduler_other st2)
                  in (0, st3, Some latencies)))"


chapter \<open>Properties\<close>

section \<open>Reading machine integers\<close>

lemma sint64_cases: "sint (w::64 word) = (if uint w < 2 ^ 63 then uint w else uint w - 2 ^ 64)"
proof -
  have b: "0 \<le> uint w" "uint w < 2 ^ 64"
    using uint_lt2p [of w] by simp_all
  have s: "sint w = (uint w + 2 ^ 63) mod 2 ^ 64 - 2 ^ 63"
    by (simp add: sint_uint signed_take_bit_eq_take_bit_shift take_bit_eq_mod)
  show ?thesis
  proof (cases "uint w < 2 ^ 63")
    case True
    with b have "(uint w + 2 ^ 63) mod 2 ^ 64 = uint w + 2 ^ 63"
      by (intro mod_pos_pos_trivial) simp_all
    with True s show ?thesis by simp
  next
    case False
    have "(uint w + 2 ^ 63) mod 2 ^ 64 = ((uint w - 2 ^ 63) + 2 ^ 64) mod 2 ^ 64"
      by (simp add: add.commute)
    also have "\<dots> = (uint w - 2 ^ 63) mod 2 ^ 64"
      by (simp only: mod_add_self2)
    also have "\<dots> = uint w - 2 ^ 63"
      using False b by (intro mod_pos_pos_trivial) simp_all
    finally show ?thesis using False s by simp
  qed
qed

lemma sint_nonneg_uint64: "0 \<le> sint (w :: 64 word) \<Longrightarrow> uint w = sint w"
  using uint_lt2p [of w] by (simp add: sint64_cases split: if_splits)

lemma div_carry: "(x::int) div 1000000000 = (x - 1000000000) div 1000000000 + 1"
proof -
  have "((x - 1000000000) + 1000000000) div 1000000000 = (x - 1000000000) div 1000000000 + 1"
    by (rule div_add_self2) simp
  then show ?thesis by simp
qed

lemma mod_carry: "(x::int) mod 1000000000 = (x - 1000000000) mod 1000000000"
proof -
  have "((x - 1000000000) + 1000000000) mod 1000000000 = (x - 1000000000) mod 1000000000"
    by (rule mod_add_self2)
  then show ?thesis by simp
qed

lemma sint_sub_second:
  assumes "1000000000 \<le> sint (x :: 64 word)"
  shows "sint (x - 1000000000) = sint x - 1000000000"
proof -
  have "sint (x - 1000000000) = signed_take_bit 63 (sint x - 1000000000)"
    by (simp add: sint_word_diff)
  also have "\<dots> = sint x - 1000000000"
    using assms sint_lt [of x] by (intro signed_take_bit_int_eq_self) simp_all
  finally show ?thesis .
qed

lemma sint_succ:
  assumes "sint (x :: 64 word) + 1 < 2 ^ 63"
  shows "sint (x + 1) = sint x + 1"
proof -
  have "sint (x + 1) = signed_take_bit 63 (sint x + 1)"
    by (simp add: sint_word_add)
  also have "\<dots> = sint x + 1"
    using assms sint_ge [of x] by (intro signed_take_bit_int_eq_self) simp_all
  finally show ?thesis .
qed

section \<open>Difference of two timestamps\<close>

text \<open>
  Inside the first \<open>2^64\<close> nanoseconds the unsigned count computed by the program is the
  instant itself.
\<close>

lemma total_ns_exact:
  assumes "0 \<le> sint (tv_sec ts)" "0 \<le> sint (tv_nsec ts)" "instant_ns ts < 2 ^ 64"
  shows "uint (tv_sec ts * 1000000000 + tv_nsec ts) = instant_ns ts"
proof -
  have s: "uint (tv_sec ts) = sint (tv_sec ts)" and n: "uint (tv_nsec ts) = sint (tv_nsec ts)"
    using assms by (simp_all add: sint_nonneg_uint64)
  have "uint (tv_sec ts * 1000000000 + tv_nsec ts)
      = (uint (tv_sec ts) * 1000000000 + uint (tv_nsec ts)) mod 2 ^ 64"
    by (simp add: uint_word_ariths mod_simps)
  also have "\<dots> = instant_ns ts mod 2 ^ 64"
    by (simp add: s n instant_ns_def)
  also have "\<dots> = instant_ns ts"
    using assms by (simp add: instant_ns_def)
  finally show ?thesis .
qed

text \<open>
  Claim C1, as amended. For two timestamps with \<open>0 \<le> tv_nsec < 10^9\<close> and
  \<open>0 \<le> tv_sec\<close> whose instants lie below \<open>2^64\<close> nanoseconds (that is, \<open>tv_sec\<close> up to
  about \<open>1.8 * 10^10\<close> seconds, 584 years), \<^verbatim>\<open>timespec_diff_ns(start, end)\<close>, read as an
  unsigned number, is the exact difference of the two instants when \<open>end\<close> is strictly
  after \<open>start\<close>, and is \<open>0\<close> otherwise, the case of equal timestamps included. The result
  is therefore never negative and never a wrapped value.
\<close>

theorem timespec_diff_ns_exact:
  assumes "0 \<le> sint (tv_nsec s)" "sint (tv_nsec s) < 1000000000"
    and "0 \<le> sint (tv_nsec e)" "sint (tv_nsec e) < 1000000000"
    and "0 \<le> sint (tv_sec s)" "instant_ns s < 2 ^ 64"
    and "0 \<le> sint (tv_sec e)" "instant_ns e < 2 ^ 64"
  shows "uint (timespec_diff_ns s e) =
           (if instant_ns s < instant_ns e then instant_ns e - instant_ns s else 0)"
proof -
  let ?a = "tv_sec s * 1000000000 + tv_nsec s"
  let ?b = "tv_sec e * 1000000000 + tv_nsec e"
  have a: "uint ?a = instant_ns s" and b: "uint ?b = instant_ns e"
    using assms by (simp_all add: total_ns_exact)
  show ?thesis
  proof (cases "instant_ns s < instant_ns e")
    case True
    then have lt: "?a < ?b" by (simp add: word_less_alt a b)
    then have "uint (?b - ?a) = uint ?b - uint ?a"
      by (simp add: uint_sub_lem [symmetric] word_le_def word_less_alt)
    with True lt show ?thesis by (simp add: timespec_diff_ns_def a b)
  next
    case False
    then have "\<not> ?a < ?b" by (simp add: word_less_alt a b)
    with False show ?thesis by (simp add: timespec_diff_ns_def)
  qed
qed

text \<open>
  The theorem at two concrete pairs: a wake-up 1250 ns late across a second boundary,
  and the same pair in the opposite order.
\<close>

theorem timespec_diff_ns_exact_witness:
  "uint (timespec_diff_ns \<lparr>tv_sec = 12, tv_nsec = 999999000\<rparr> \<lparr>tv_sec = 13, tv_nsec = 250\<rparr>) = 1250
   \<and> uint (timespec_diff_ns \<lparr>tv_sec = 13, tv_nsec = 250\<rparr> \<lparr>tv_sec = 12, tv_nsec = 999999000\<rparr>) = 0"
  using timespec_diff_ns_exact [of "\<lparr>tv_sec = 12, tv_nsec = 999999000\<rparr>" "\<lparr>tv_sec = 13, tv_nsec = 250\<rparr>"]
    timespec_diff_ns_exact [of "\<lparr>tv_sec = 13, tv_nsec = 250\<rparr>" "\<lparr>tv_sec = 12, tv_nsec = 999999000\<rparr>"]
  by (simp add: instant_ns_def)

text \<open>
  Without the bound on \<open>tv_sec\<close> the statement fails: \<open>18446744074 * 10^9\<close> exceeds
  \<open>2^64\<close> and wraps to \<open>290448384\<close>, which is below the \<open>10^9\<close> nanoseconds of the start.
  Both nanosecond fields are in range and the end is strictly after the start, yet the
  function returns \<open>0\<close>.
\<close>

theorem timespec_diff_ns_counterexample:
  "0 \<le> sint (tv_nsec \<lparr>tv_sec = 1, tv_nsec = 0\<rparr>)
   \<and> sint (tv_nsec \<lparr>tv_sec = 1, tv_nsec = 0\<rparr>) < 1000000000
   \<and> 0 \<le> sint (tv_nsec \<lparr>tv_sec = 18446744074, tv_nsec = 0\<rparr>)
   \<and> sint (tv_nsec \<lparr>tv_sec = 18446744074, tv_nsec = 0\<rparr>) < 1000000000
   \<and> instant_ns \<lparr>tv_sec = 1, tv_nsec = 0\<rparr> < instant_ns \<lparr>tv_sec = 18446744074, tv_nsec = 0\<rparr>
   \<and> timespec_diff_ns \<lparr>tv_sec = 1, tv_nsec = 0\<rparr> \<lparr>tv_sec = 18446744074, tv_nsec = 0\<rparr> = 0"
  by (simp add: instant_ns_def timespec_diff_ns_def)

section \<open>Advancing a timestamp by a period\<close>

lemma carry_loop_normalises:
  "0 \<le> sint (tv_nsec ts) \<Longrightarrow>
   sint (tv_sec ts) + sint (tv_nsec ts) div 1000000000 < 2 ^ 63 \<Longrightarrow>
   sint (tv_nsec (carry_loop ts)) = sint (tv_nsec ts) mod 1000000000 \<and>
   sint (tv_sec (carry_loop ts)) = sint (tv_sec ts) + sint (tv_nsec ts) div 1000000000"
proof (induction ts rule: carry_loop.induct)
  case (1 ts)
  let ?n = "sint (tv_nsec ts)" and ?s = "sint (tv_sec ts)"
  show ?case
  proof (cases "1000000000 \<le>s tv_nsec ts")
    case False
    then have "?n < 1000000000" by (simp add: word_sle_eq)
    with "1.prems"(1) have "?n mod 1000000000 = ?n" "?n div 1000000000 = 0" by simp_all
    moreover have "carry_loop ts = ts"
      using False by (subst carry_loop.simps) simp
    ultimately show ?thesis by simp
  next
    case True
    then have ge: "1000000000 \<le> ?n" by (simp add: word_sle_eq)
    let ?ts' = "ts\<lparr>tv_sec := tv_sec ts + 1, tv_nsec := tv_nsec ts - 1000000000\<rparr>"
    have n': "sint (tv_nsec ts - 1000000000) = ?n - 1000000000"
      using ge by (simp add: sint_sub_second)
    have d: "(?n - 1000000000) div 1000000000 = ?n div 1000000000 - 1"
      using div_carry [of ?n] by simp
    have m: "(?n - 1000000000) mod 1000000000 = ?n mod 1000000000"
      using mod_carry [of ?n] by simp
    have "1 \<le> ?n div 1000000000" using ge by simp
    with "1.prems"(2) have "?s + 1 < 2 ^ 63" by simp
    then have s': "sint (tv_sec ts + 1) = ?s + 1" by (simp add: sint_succ)
    have "sint (tv_nsec (carry_loop ?ts')) = sint (tv_nsec ?ts') mod 1000000000 \<and>
          sint (tv_sec (carry_loop ?ts')) = sint (tv_sec ?ts') + sint (tv_nsec ?ts') div 1000000000"
    proof (rule "1.IH" [OF True])
      show "0 \<le> sint (tv_nsec ?ts')" using ge n' by simp
      show "sint (tv_sec ?ts') + sint (tv_nsec ?ts') div 1000000000 < 2 ^ 63"
        using "1.prems"(2) by (simp add: n' s' d)
    qed
    moreover have "carry_loop ts = carry_loop ?ts'"
      using True by (subst carry_loop.simps) simp
    ultimately show ?thesis
      by (simp add: n' s' d m)
  qed
qed

lemma sint_period_ns:
  assumes "uint (us :: 64 word) \<le> 9223372035854775"
  shows "sint (us * 1000) = uint us * 1000"
proof -
  have "uint (us * 1000) = uint us * 1000 mod 2 ^ 64"
    by (simp add: uint_word_ariths)
  also have "\<dots> = uint us * 1000"
    using assms by (intro mod_pos_pos_trivial) simp_all
  finally have u: "uint (us * 1000) = uint us * 1000" .
  with assms show ?thesis by (simp add: sint64_cases)
qed

lemma sint_add_period:
  assumes "0 \<le> sint (n :: 64 word)" "sint n < 1000000000"
    and "uint (us :: 64 word) \<le> 9223372035854775"
  shows "sint (n + us * 1000) = sint n + uint us * 1000"
proof -
  have "sint (n + us * 1000) = signed_take_bit 63 (sint n + sint (us * 1000))"
    by (simp add: sint_word_add)
  also have "\<dots> = signed_take_bit 63 (sint n + uint us * 1000)"
    using assms(3) by (simp add: sint_period_ns)
  also have "\<dots> = sint n + uint us * 1000"
  proof (rule signed_take_bit_int_eq_self)
    have "0 \<le> uint us * 1000" by simp
    moreover have "- (2 ^ 63) \<le> (0::int)" by simp
    ultimately show "- (2 ^ 63) \<le> sint n + uint us * 1000"
      using assms(1) by linarith
    show "sint n + uint us * 1000 < 2 ^ 63" using assms(2,3) by simp
  qed
  finally show ?thesis .
qed

lemma seconds_fit:
  assumes "s * 1000000000 + y < 2 ^ 63 * 1000000000" "0 \<le> (y::int)"
  shows "s + y div 1000000000 < 2 ^ 63"
proof -
  have "y div 1000000000 * 1000000000 + y mod 1000000000 = y"
    by (rule div_mult_mod_eq)
  moreover have "0 \<le> y mod 1000000000" by simp
  ultimately have "y div 1000000000 * 1000000000 \<le> y" by linarith
  then have "(s + y div 1000000000) * 1000000000 < 2 ^ 63 * 1000000000"
    using assms(1) by (simp add: algebra_simps)
  then show ?thesis by simp
qed

text \<open>
  Claim C2, as amended. For every timespec with \<open>0 \<le> tv_nsec < 10^9\<close> and every period of
  at most \<open>9223372035854775\<close> microseconds (some 292 years, so that \<^verbatim>\<open>tv_nsec + us * 1000\<close>
  stays a non-negative \<^verbatim>\<open>long\<close>), provided the advanced instant is still below
  \<open>2^63\<close> seconds (so that a \<open>timespec\<close> can hold it), \<^verbatim>\<open>timespec_add_us\<close> leaves
  \<open>tv_nsec\<close> in \<open>[0, 10^9)\<close> and the instant it stands for is the original instant plus
  exactly \<open>us * 1000\<close> nanoseconds. The carry is repeated, so a period of several seconds
  is advanced exactly.
\<close>

theorem timespec_add_us_exact:
  assumes "0 \<le> sint (tv_nsec ts)" "sint (tv_nsec ts) < 1000000000"
    and "uint us \<le> 9223372035854775"
    and "instant_ns ts + uint us * 1000 < 2 ^ 63 * 1000000000"
  shows "0 \<le> sint (tv_nsec (timespec_add_us ts us))
       \<and> sint (tv_nsec (timespec_add_us ts us)) < 1000000000
       \<and> instant_ns (timespec_add_us ts us) = instant_ns ts + uint us * 1000"
proof -
  let ?y = "sint (tv_nsec ts) + uint us * 1000"
  let ?ts1 = "ts\<lparr>tv_nsec := tv_nsec ts + us * 1000\<rparr>"
  have y: "sint (tv_nsec ts + us * 1000) = ?y"
    using assms(1-3) by (rule sint_add_period)
  have y0: "0 \<le> ?y" using assms(1) by simp
  have fit: "sint (tv_sec ts) + ?y div 1000000000 < 2 ^ 63"
    using assms(4) y0 by (intro seconds_fit) (simp_all add: instant_ns_def)
  have norm: "sint (tv_nsec (carry_loop ?ts1)) = ?y mod 1000000000 \<and>
        sint (tv_sec (carry_loop ?ts1)) = sint (tv_sec ts) + ?y div 1000000000"
    using carry_loop_normalises [of ?ts1] y0 fit by (simp add: y)
  have "(sint (tv_sec ts) + ?y div 1000000000) * 1000000000 + ?y mod 1000000000
          = sint (tv_sec ts) * 1000000000 + ?y"
    by (simp add: algebra_simps)
  with norm show ?thesis
    by (simp add: timespec_add_us_def instant_ns_def)
qed

text \<open>The theorem at a period of five seconds, added 1 ns before a second boundary.\<close>

theorem timespec_add_us_exact_witness:
  "timespec_add_us \<lparr>tv_sec = 7, tv_nsec = 999999999\<rparr> 5000000 = \<lparr>tv_sec = 12, tv_nsec = 999999999\<rparr>
   \<and> instant_ns (timespec_add_us \<lparr>tv_sec = 7, tv_nsec = 999999999\<rparr> 5000000)
       = instant_ns \<lparr>tv_sec = 7, tv_nsec = 999999999\<rparr> + 5000000 * 1000"
  using timespec_add_us_exact [of "\<lparr>tv_sec = 7, tv_nsec = 999999999\<rparr>" 5000000]
  by (simp add: instant_ns_def timespec_add_us_def carry_loop.simps)

text \<open>
  For every timespec the statement fails: at the largest \<open>tv_sec\<close> a period of one second
  carries into a seconds field that cannot hold the result (no \<open>timespec\<close> stands for
  that instant; in C++ the increment overflows). The model wraps to the smallest
  \<open>tv_sec\<close>.
\<close>

theorem timespec_add_us_counterexample:
  "0 \<le> sint (tv_nsec \<lparr>tv_sec = 9223372036854775807, tv_nsec = 0\<rparr>)
   \<and> sint (tv_nsec \<lparr>tv_sec = 9223372036854775807, tv_nsec = 0\<rparr>) < 1000000000
   \<and> instant_ns (timespec_add_us \<lparr>tv_sec = 9223372036854775807, tv_nsec = 0\<rparr> 1000000)
       \<noteq> instant_ns \<lparr>tv_sec = 9223372036854775807, tv_nsec = 0\<rparr> + uint (1000000 :: 64 word) * 1000"
  by (simp add: timespec_add_us_def carry_loop.simps instant_ns_def)

section \<open>Statistics\<close>






text \<open>
  Claim C9. On the empty sample list \<^verbatim>\<open>calculate_stats\<close> returns the all-zero record. The
  function is total and the empty case is its first branch: it returns before the
  minimum, the sum or any division is computed.
\<close>

theorem calculate_stats_empty:
  "calculate_stats [] = \<lparr>min_ns = 0, max_ns = 0, avg_ns = 0, stddev_ns = 0\<rparr>"
  by (simp add: calculate_stats_def)

section \<open>Real-time configuration\<close>

text \<open>
  Claim C6. If \<^verbatim>\<open>mlockall\<close> fails, \<^verbatim>\<open>configure_realtime\<close> returns failure, \<^verbatim>\<open>mlockall\<close>
  is the only call it has issued, and the memory-lock state is what it was. If
  \<^verbatim>\<open>mlockall\<close> succeeds and \<^verbatim>\<open>sched_setscheduler\<close> fails, it returns failure after
  exactly the calls \<^verbatim>\<open>mlockall\<close>, \<^verbatim>\<open>sched_setscheduler\<close>, \<^verbatim>\<open>munlockall\<close>: the affinity
  call is not attempted and memory is left unlocked.
\<close>

theorem configure_realtime_fatal_steps:
  "(mlockall_ret env \<noteq> 0 \<longrightarrow>
      fst (configure_realtime env st) = False
      \<and> calls (snd (configure_realtime env st)) = calls st @ [Mlockall]
      \<and> memory_locked (snd (configure_realtime env st)) = memory_locked st)
   \<and> (mlockall_ret env = 0 \<and> sched_setscheduler_ret env \<noteq> 0 \<longrightarrow>
      fst (configure_realtime env st) = False
      \<and> calls (snd (configure_realtime env st))
          = calls st @ [Mlockall, SchedSetschedulerFifo, Munlockall]
      \<and> memory_locked (snd (configure_realtime env st)) = False)"
  by (simp add: configure_realtime_def mlockall_def sched_setscheduler_fifo_def munlockall_def
      issue_def say_def)

text \<open>Both failures from the initial state, with \<open>-1\<close> as the failing return value.\<close>

theorem configure_realtime_fatal_steps_witness:
  "configure_realtime \<lparr>mlockall_ret = -1, sched_setscheduler_ret = 0, setaffinity_ret = 0\<rparr>
       initial_state
     = (False, \<lparr>memory_locked = False, sched_fifo = False, pinned = False, calls = [Mlockall],
                messages = [ErrorMlockall]\<rparr>)
   \<and> configure_realtime \<lparr>mlockall_ret = 0, sched_setscheduler_ret = -1, setaffinity_ret = 0\<rparr>
       initial_state
     = (False, \<lparr>memory_locked = False, sched_fifo = False, pinned = False,
                calls = [Mlockall, SchedSetschedulerFifo, Munlockall],
                messages = [MemoryLocked, ErrorSchedSetscheduler]\<rparr>)"
  using configure_realtime_fatal_steps
      [of "\<lparr>mlockall_ret = -1, sched_setscheduler_ret = 0, setaffinity_ret = 0\<rparr>" initial_state]
    configure_realtime_fatal_steps
      [of "\<lparr>mlockall_ret = 0, sched_setscheduler_ret = -1, setaffinity_ret = 0\<rparr>" initial_state]
  by (simp add: configure_realtime_def mlockall_def sched_setscheduler_fifo_def munlockall_def
      issue_def say_def initial_state_def)

text \<open>
  Claim C7. If the first two steps succeed and the affinity call fails,
  \<^verbatim>\<open>configure_realtime\<close> prints the warning and returns success, and \<^verbatim>\<open>main\<close> (without
  arguments) runs the periodic task and exits with status 0. \<^verbatim>\<open>configure_realtime\<close>
  returns failure exactly when \<^verbatim>\<open>mlockall\<close> or \<^verbatim>\<open>sched_setscheduler\<close> fails.
\<close>

theorem configure_realtime_affinity_nonfatal:
  "(mlockall_ret env = 0 \<and> sched_setscheduler_ret env = 0 \<and> setaffinity_ret env \<noteq> 0 \<longrightarrow>
      fst (configure_realtime env st) = True
      \<and> messages (snd (configure_realtime env st))
          = messages st @ [MemoryLocked, SchedFifoActive, WarningAffinity]
      \<and> fst (main [] env clk st) = 0
      \<and> snd (snd (main [] env clk st)) = Some (run_periodic_task clk))
   \<and> (fst (configure_realtime env st) = False
        \<longleftrightarrow> mlockall_ret env \<noteq> 0 \<or> sched_setscheduler_ret env \<noteq> 0)"
  by (simp add: main_def configure_realtime_def mlockall_def sched_setscheduler_fifo_def
      pthread_setaffinity_np_def munlockall_def issue_def say_def Let_def)

text \<open>An affinity call failing with \<open>22\<close> (\<^verbatim>\<open>EINVAL\<close>), from the initial state.\<close>

theorem configure_realtime_affinity_nonfatal_witness:
  "fst (configure_realtime \<lparr>mlockall_ret = 0, sched_setscheduler_ret = 0, setaffinity_ret = 22\<rparr>
        initial_state) = True
   \<and> messages (snd (configure_realtime
        \<lparr>mlockall_ret = 0, sched_setscheduler_ret = 0, setaffinity_ret = 22\<rparr> initial_state))
       = [MemoryLocked, SchedFifoActive, WarningAffinity]
   \<and> fst (main [] \<lparr>mlockall_ret = 0, sched_setscheduler_ret = 0, setaffinity_ret = 22\<rparr>
        \<lparr>clock_start = \<lparr>tv_sec = 41, tv_nsec = 999500000\<rparr>, wake_time = (\<lambda>k s. s)\<rparr>
        initial_state) = 0"
  using configure_realtime_affinity_nonfatal
      [of "\<lparr>mlockall_ret = 0, sched_setscheduler_ret = 0, setaffinity_ret = 22\<rparr>" initial_state
          "\<lparr>clock_start = \<lparr>tv_sec = 41, tv_nsec = 999500000\<rparr>, wake_time = (\<lambda>k s. s)\<rparr>"]
  by (simp add: initial_state_def)

section \<open>A run that wakes exactly on schedule\<close>

lemma timespec_diff_ns_same: "timespec_diff_ns t t = 0"
  by (simp add: timespec_diff_ns_def)

lemma sint_succ32:
  assumes "sint (i :: 32 word) < 1000"
  shows "sint (i + 1) = sint i + 1"
proof -
  have "sint (i + 1) = signed_take_bit 31 (sint i + 1)" by (simp add: sint_word_add)
  also have "\<dots> = sint i + 1"
    using assms sint_ge [of i] by (intro signed_take_bit_int_eq_self) simp_all
  finally show ?thesis .
qed

lemma periodic_loop_on_schedule:
  "(\<forall>k s. wake k s = s) \<Longrightarrow> sint i \<le> 1000 \<Longrightarrow>
    periodic_loop wake i next_period latencies = latencies @ replicate (nat (1000 - sint i)) 0"
proof (induction wake i next_period latencies rule: periodic_loop.induct)
  case (1 wake i next_period latencies)
  from "1.prems"(1) have w: "wake k s = s" for k s by simp
  show ?case
  proof (cases "i <s NUM_ITERATIONS")
    case False
    then have "sint i = 1000"
      using "1.prems"(2) by (simp add: word_sless_alt NUM_ITERATIONS_def)
    moreover have "periodic_loop wake i next_period latencies = latencies"
      using False by (subst periodic_loop.simps) simp
    ultimately show ?thesis by simp
  next
    case True
    then have lt: "sint i < 1000" by (simp add: word_sless_alt NUM_ITERATIONS_def)
    then have s: "sint (i + 1) = sint i + 1" by (rule sint_succ32)
    have "periodic_loop wake i next_period latencies
        = periodic_loop wake (i + 1) (next_period_after next_period)
            (latencies @ [timespec_diff_ns next_period (wake (nat (sint i)) next_period)])"
      using True by (subst periodic_loop.simps) (simp add: Let_def)
    also have "\<dots> = (latencies @ [timespec_diff_ns next_period (wake (nat (sint i)) next_period)])
          @ replicate (nat (1000 - sint (i + 1))) 0"
      using True lt s "1.prems"(1) by (intro "1.IH") simp_all
    also have "\<dots> = latencies @ replicate (nat (1000 - sint i)) 0"
    proof -
      have "nat (1000 - sint i) = Suc (nat (1000 - sint (i + 1)))"
        using lt s by simp
      then show ?thesis by (simp add: w timespec_diff_ns_same)
    qed
    finally show ?thesis .
  qed
qed

lemma min_element_replicate: "min_element x (replicate n x) = x"
  by (induction n) simp_all

lemma max_element_replicate: "max_element x (replicate n x) = x"
  by (induction n) simp_all

lemma replicate_1000: "replicate 1000 x = x # replicate 999 x"
proof -
  have "(1000::nat) = Suc 999" by simp
  then show ?thesis by (simp only: replicate_Suc)
qed

text \<open>
  Claim C8. If the clock read after every wait is the scheduled instant itself, the run
  (1000 iterations, period 1000 microseconds) returns exactly 1000 latencies, all 0;
  \<^verbatim>\<open>calculate_stats\<close> reports a maximum of 0 and \<^verbatim>\<open>print_histogram\<close> reports that all
  latencies are identical (0 microseconds).
\<close>

theorem on_schedule_run_all_zero:
  assumes "\<forall>k s. wake_time clk k s = s"
  shows "run_periodic_task clk = replicate 1000 0
       \<and> length (run_periodic_task clk) = 1000
       \<and> max_ns (calculate_stats (run_periodic_task clk)) = 0
       \<and> print_histogram (run_periodic_task clk) 15 = Inr (AllIdentical 0)"
proof -
  have "periodic_loop (wake_time clk) 0 (clock_start clk) []
      = [] @ replicate (nat (1000 - sint (0 :: 32 word))) 0"
    using assms by (intro periodic_loop_on_schedule) simp_all
  then have r: "run_periodic_task clk = replicate 1000 0"
    by (simp add: run_periodic_task_def)
  have m: "max_ns (calculate_stats (replicate 1000 0)) = 0"
    by (simp add: replicate_1000 calculate_stats_def max_element_replicate Let_def)
  have h: "print_histogram (replicate 1000 0) 15 = Inr (AllIdentical 0)"
    by (simp add: replicate_1000 print_histogram_def min_element_replicate
        max_element_replicate Let_def)
  from r m h show ?thesis by simp
qed

text \<open>A clock that starts half a millisecond before a second boundary and never is late.\<close>

theorem on_schedule_run_all_zero_witness:
  "run_periodic_task \<lparr>clock_start = \<lparr>tv_sec = 41, tv_nsec = 999500000\<rparr>, wake_time = (\<lambda>k s. s)\<rparr>
     = replicate 1000 0
   \<and> max_ns (calculate_stats (run_periodic_task
        \<lparr>clock_start = \<lparr>tv_sec = 41, tv_nsec = 999500000\<rparr>, wake_time = (\<lambda>k s. s)\<rparr>)) = 0
   \<and> print_histogram (run_periodic_task
        \<lparr>clock_start = \<lparr>tv_sec = 41, tv_nsec = 999500000\<rparr>, wake_time = (\<lambda>k s. s)\<rparr>) 15
       = Inr (AllIdentical 0)"
proof -
  let ?clk = "\<lparr>clock_start = \<lparr>tv_sec = 41, tv_nsec = 999500000\<rparr>, wake_time = (\<lambda>k s. s)\<rparr>"
  have "\<forall>k s. wake_time ?clk k s = s" by simp
  from on_schedule_run_all_zero [OF this] show ?thesis by blast
qed

section \<open>Histogram\<close>

lemma sint32_cases: "sint (w::32 word) = (if uint w < 2 ^ 31 then uint w else uint w - 2 ^ 32)"
proof -
  have b: "0 \<le> uint w" "uint w < 2 ^ 32"
    using uint_lt2p [of w] by simp_all
  have s: "sint w = (uint w + 2 ^ 31) mod 2 ^ 32 - 2 ^ 31"
    by (simp add: sint_uint signed_take_bit_eq_take_bit_shift take_bit_eq_mod)
  show ?thesis
  proof (cases "uint w < 2 ^ 31")
    case True
    with b have "(uint w + 2 ^ 31) mod 2 ^ 32 = uint w + 2 ^ 31"
      by (intro mod_pos_pos_trivial) simp_all
    with True s show ?thesis by simp
  next
    case False
    have "(uint w + 2 ^ 31) mod 2 ^ 32 = ((uint w - 2 ^ 31) + 2 ^ 32) mod 2 ^ 32"
      by (simp add: add.commute)
    also have "\<dots> = (uint w - 2 ^ 31) mod 2 ^ 32"
      by (simp only: mod_add_self2)
    also have "\<dots> = uint w - 2 ^ 31"
      using False b by (intro mod_pos_pos_trivial) simp_all
    finally show ?thesis using False s by simp
  qed
qed

lemma uint_scast_nonneg:
  assumes "0 \<le> sint (n :: 32 word)"
  shows "uint (scast n :: 64 word) = sint n"
proof -
  have "sint n < 2 ^ 31" using sint_lt [of n] by simp
  then have "sint n < 2 ^ 64" by simp
  have "uint (scast n :: 64 word) = uint (word_of_int (sint n) :: 64 word)"
    by (simp only: scast_eq)
  also have "\<dots> = sint n mod 2 ^ 64"
    by (simp only: uint_word_of_int) simp
  also have "\<dots> = sint n"
    using assms \<open>sint n < 2 ^ 64\<close> by (intro mod_pos_pos_trivial) simp_all
  finally show ?thesis .
qed

lemma uint_ucast_32: "uint (ucast (q :: 64 word) :: 32 word) = uint q mod 2 ^ 32"
  by (simp only: unsigned_ucast_eq take_bit_eq_mod) simp

lemma sint_ucast_small:
  assumes "uint (q :: 64 word) < 2 ^ 31"
  shows "sint (ucast q :: 32 word) = uint q"
proof -
  have "uint q mod 2 ^ 32 = uint q"
    using assms by (intro mod_pos_pos_trivial) simp_all
  then have "uint (ucast q :: 32 word) = uint q" by (simp add: uint_ucast_32)
  with assms show ?thesis by (simp add: sint32_cases)
qed

lemma sint_pred32:
  assumes "1 \<le> sint (n :: 32 word)"
  shows "sint (n - 1) = sint n - 1"
proof -
  have "sint (n - 1) = signed_take_bit 31 (sint n - 1)" by (simp add: sint_word_diff)
  also have "\<dots> = sint n - 1"
    using assms sint_lt [of n] by (intro signed_take_bit_int_eq_self) simp_all
  finally show ?thesis .
qed


lemma min_element_mem: "min_element s xs \<in> insert s (set xs)"
  by (induction xs arbitrary: s) (simp, force)

lemma min_element_le: "min_element s xs \<le> s \<and> (\<forall>y\<in>set xs. min_element s xs \<le> y)"
proof (induction xs arbitrary: s)
  case Nil
  show ?case by simp
next
  case (Cons x xs)
  let ?s' = "if x < s then x else s"
  from Cons.IH [of ?s'] have a: "min_element ?s' xs \<le> ?s'"
    and b: "\<forall>y\<in>set xs. min_element ?s' xs \<le> y" by simp_all
  have "?s' \<le> s" "?s' \<le> x" by auto
  with a have "min_element ?s' xs \<le> s" "min_element ?s' xs \<le> x"
    by (meson order_trans)+
  with b show ?case by simp
qed

lemma max_element_mem: "max_element s xs \<in> insert s (set xs)"
  by (induction xs arbitrary: s) (simp, force)

lemma max_element_ge: "s \<le> max_element s xs \<and> (\<forall>y\<in>set xs. y \<le> max_element s xs)"
proof (induction xs arbitrary: s)
  case Nil
  show ?case by simp
next
  case (Cons x xs)
  let ?s' = "if s < x then x else s"
  from Cons.IH [of ?s'] have a: "?s' \<le> max_element ?s' xs"
    and b: "\<forall>y\<in>set xs. y \<le> max_element ?s' xs" by simp_all
  have "s \<le> ?s'" "x \<le> ?s'" by auto
  with a have "s \<le> max_element ?s' xs" "x \<le> max_element ?s' xs"
    by (meson order_trans)+
  with b show ?case by simp
qed

lemma min_element_Min: "min_element first rest = Min (set (first # rest))"
proof (rule sym, rule Min_eqI)
  show "finite (set (first # rest))" by simp
  show "min_element first rest \<le> y" if "y \<in> set (first # rest)" for y
    using that min_element_le [of first rest] by auto
  show "min_element first rest \<in> set (first # rest)"
    using min_element_mem [of first rest] by simp
qed

lemma max_element_Max: "max_element first rest = Max (set (first # rest))"
proof (rule sym, rule Max_eqI)
  show "finite (set (first # rest))" by simp
  show "y \<le> max_element first rest" if "y \<in> set (first # rest)" for y
    using that max_element_ge [of first rest] by auto
  show "max_element first rest \<in> set (first # rest)"
    using max_element_mem [of first rest] by simp
qed

lemma hist_bin_width_value:
  assumes "1 \<le> sint num_bins"
  shows "uint (hist_bin_width r num_bins) = max 1 (uint r div sint num_bins)"
proof -
  have n: "uint (scast num_bins :: 64 word) = sint num_bins"
    using assms by (intro uint_scast_nonneg) simp
  have d: "uint (r div scast num_bins) = uint r div sint num_bins"
    by (simp only: uint_div n)
  have nonneg: "0 \<le> uint r div sint num_bins"
    using assms by (intro pos_imp_zdiv_nonneg_iff [THEN iffD2]) simp_all
  show ?thesis
  proof (cases "r div scast num_bins = 0")
    case True
    then have "uint (r div scast num_bins) = 0" by simp
    with d have "uint r div sint num_bins = 0" by simp
    with True show ?thesis by (simp add: hist_bin_width_def)
  next
    case False
    then have "uint (r div scast num_bins) \<noteq> 0"
      by (simp add: uint_0_iff)
    with d nonneg have "1 \<le> uint r div sint num_bins" by linarith
    with False d show ?thesis by (simp add: hist_bin_width_def Let_def max_def)
  qed
qed

lemma bin_index_in_range:
  assumes "1 \<le> sint num_bins"
  shows "0 \<le> sint (bin_index min_lat bin_width num_bins lat)
       \<and> sint (bin_index min_lat bin_width num_bins lat) < sint num_bins"
proof -
  let ?i0 = "ucast ((lat - min_lat) div bin_width) :: 32 word"
  have p: "sint (num_bins - 1) = sint num_bins - 1"
    using assms by (rule sint_pred32)
  show ?thesis
  proof (cases "num_bins \<le>s ?i0")
    case True
    with p assms show ?thesis
      by (simp add: bin_index_def Let_def word_sless_alt)
  next
    case False
    then have "sint ?i0 < sint num_bins" by (simp add: word_sle_eq)
    with False assms show ?thesis
      by (simp add: bin_index_def Let_def word_sless_alt)
  qed
qed

lemma quotient_bound:
  assumes "0 < (n::int)" "n \<le> r"
  shows "r div (r div n) < 2 * n"
proof -
  let ?w = "r div n"
  have w: "1 \<le> ?w"
    using assms pos_imp_zdiv_pos_iff [of n r] by simp
  have "?w * n + r mod n = r" by (rule div_mult_mod_eq)
  moreover have "r mod n < n" using assms(1) by simp
  ultimately have a: "r < ?w * n + n" by linarith
  have b: "n \<le> ?w * n" using w assms(1) by (simp add: mult_le_cancel_right1)
  have e: "?w * n + ?w * n = (2 * n) * ?w" by (simp add: algebra_simps)
  from a b have "r < ?w * n + ?w * n" by linarith
  then have "r < (2 * n) * ?w" by (simp only: e)
  moreover have "r div ?w * ?w + r mod ?w = r" by (rule div_mult_mod_eq)
  moreover have "0 \<le> r mod ?w" using w by simp
  ultimately have "r div ?w * ?w < (2 * n) * ?w" by linarith
  then show ?thesis using w by (simp add: mult_less_cancel_right)
qed

lemma bin_index_clamp:
  assumes n: "1 \<le> sint num_bins" "sint num_bins \<le> 2 ^ 30"
    and l: "lo \<le> lat" "lat \<le> hi"
  shows "sint (bin_index lo (hist_bin_width (hi - lo) num_bins) num_bins lat)
       = max 0 (min (sint num_bins - 1)
           ((uint lat - uint lo) div uint (hist_bin_width (hi - lo) num_bins)))"
proof -
  let ?w = "hist_bin_width (hi - lo) num_bins"
  let ?R = "uint hi - uint lo" and ?d = "uint lat - uint lo" and ?N = "sint num_bins"
  let ?Q = "?d div uint ?w"
  let ?i0 = "ucast ((lat - lo) div ?w) :: 32 word"
  have le: "uint lo \<le> uint lat" "uint lat \<le> uint hi"
    using l by (simp_all add: word_le_def)
  then have lohi: "lo \<le> hi" by (simp add: word_le_def)
  have R: "uint (hi - lo) = ?R"
    using lohi by (simp add: uint_sub_lem [symmetric] word_le_def)
  have d: "uint (lat - lo) = ?d"
    using l(1) by (simp add: uint_sub_lem [symmetric] word_le_def)
  have w: "uint ?w = max 1 (?R div ?N)"
    using n(1) by (simp add: hist_bin_width_value R)
  then have wpos: "0 < uint ?w" by simp
  have q: "uint ((lat - lo) div ?w) = ?Q"
    by (simp only: uint_div d)
  have Q0: "0 \<le> ?Q"
    using wpos le by (intro pos_imp_zdiv_nonneg_iff [THEN iffD2]) simp_all
  have Qle: "?Q \<le> ?R div uint ?w"
    using wpos le by (intro zdiv_mono1) simp_all
  have Qsmall: "?Q < 2 ^ 31"
  proof (cases "?N \<le> ?R")
    case True
    then have "1 \<le> ?R div ?N"
      using n(1) pos_imp_zdiv_pos_iff [of ?N ?R] by simp
    with w have "uint ?w = ?R div ?N" by simp
    moreover have "?R div (?R div ?N) < 2 * ?N"
      using n(1) True by (intro quotient_bound) simp_all
    ultimately have "?R div uint ?w < 2 * ?N" by simp
    with Qle n(2) show ?thesis by simp
  next
    case False
    then have "?R div ?N = 0"
      using le by (intro div_pos_pos_trivial) simp_all
    with w have "uint ?w = 1" by simp
    then have "?Q = ?d" by simp
    with False le n(2) show ?thesis by simp
  qed
  have i0: "sint ?i0 = ?Q"
    using Qsmall by (simp only: sint_ucast_small q)
  have p: "sint (num_bins - 1) = ?N - 1"
    using n(1) by (rule sint_pred32)
  have sle: "(num_bins \<le>s ?i0) = (?N \<le> ?Q)"
    by (simp only: word_sle_eq i0)
  show ?thesis
  proof (cases "num_bins \<le>s ?i0")
    case True
    with sle have "?N \<le> ?Q" by blast
    with True p n(1) show ?thesis
      by (simp add: bin_index_def Let_def word_sless_alt)
  next
    case False
    with sle have "\<not> ?N \<le> ?Q" by blast
    then have "?Q < ?N" by simp
    with False Q0 i0 show ?thesis
      by (simp add: bin_index_def Let_def word_sless_alt)
  qed
qed

lemma bin_slot_in_range:
  assumes "1 \<le> sint num_bins"
  shows "nat (sint (bin_index lo w num_bins lat)) < nat (sint num_bins)"
  using bin_index_in_range [OF assms, of lo w lat] by simp

lemma unat_succ32:
  assumes "unat (b :: 32 word) + 1 < 2 ^ 32"
  shows "unat (b + 1) = unat b + 1"
proof -
  have "unat (b + 1) = (unat b + 1) mod 2 ^ 32" by (simp add: unat_word_ariths)
  with assms show ?thesis by simp
qed

lemma length_count_sample: "length (count_sample lo w n bins lat) = length bins"
  by (simp add: count_sample_def Let_def)

lemma length_fill: "length (foldl (count_sample lo w n) bins xs) = length bins"
  by (induction xs arbitrary: bins) (simp_all add: length_count_sample)

lemma fill_counts:
  assumes n: "1 \<le> sint num_bins"
  shows "length bins = nat (sint num_bins) \<Longrightarrow>
    \<forall>k<length bins. unat (bins ! k)
        + length (filter (\<lambda>lat. nat (sint (bin_index lo w num_bins lat)) = k) xs) < 2 ^ 32 \<Longrightarrow>
    \<forall>k<length bins. unat (foldl (count_sample lo w num_bins) bins xs ! k)
        = unat (bins ! k)
          + length (filter (\<lambda>lat. nat (sint (bin_index lo w num_bins lat)) = k) xs)"
proof (induction xs arbitrary: bins)
  case Nil
  show ?case by simp
next
  case (Cons a xs)
  let ?i = "nat (sint (bin_index lo w num_bins a))"
  let ?bins' = "count_sample lo w num_bins bins a"
  have i: "?i < length bins"
    using bin_slot_in_range [OF n] Cons.prems(1) by simp
  have len: "length ?bins' = nat (sint num_bins)"
    using Cons.prems(1) by (simp add: length_count_sample)
  have step: "unat (?bins' ! k) = unat (bins ! k) + (if ?i = k then 1 else 0)"
    if k: "k < length bins" for k
  proof (cases "?i = k")
    case True
    from Cons.prems(2) k have "unat (bins ! k)
        + length (filter (\<lambda>lat. nat (sint (bin_index lo w num_bins lat)) = k) (a # xs)) < 2 ^ 32"
      by blast
    with True have "unat (bins ! k) + 1 < 2 ^ 32" by simp
    then have "unat (bins ! k + 1) = unat (bins ! k) + 1" by (rule unat_succ32)
    with True k show ?thesis by (simp add: count_sample_def Let_def)
  next
    case False
    with k show ?thesis by (simp add: count_sample_def Let_def)
  qed
  have pre: "\<forall>k<length ?bins'. unat (?bins' ! k)
        + length (filter (\<lambda>lat. nat (sint (bin_index lo w num_bins lat)) = k) xs) < 2 ^ 32"
  proof (intro allI impI)
    fix k assume "k < length ?bins'"
    then have k: "k < length bins" by (simp add: length_count_sample)
    from Cons.prems(2) k have "unat (bins ! k)
        + length (filter (\<lambda>lat. nat (sint (bin_index lo w num_bins lat)) = k) (a # xs)) < 2 ^ 32"
      by blast
    with step [OF k] show "unat (?bins' ! k)
        + length (filter (\<lambda>lat. nat (sint (bin_index lo w num_bins lat)) = k) xs) < 2 ^ 32"
      by (cases "?i = k") simp_all
  qed
  have IH: "\<forall>k<length ?bins'. unat (foldl (count_sample lo w num_bins) ?bins' xs ! k)
        = unat (?bins' ! k)
          + length (filter (\<lambda>lat. nat (sint (bin_index lo w num_bins lat)) = k) xs)"
    using len pre by (rule Cons.IH)
  show ?case
  proof (intro allI impI)
    fix k assume k: "k < length bins"
    then have "k < length ?bins'" by (simp add: length_count_sample)
    with IH have "unat (foldl (count_sample lo w num_bins) ?bins' xs ! k)
        = unat (?bins' ! k)
          + length (filter (\<lambda>lat. nat (sint (bin_index lo w num_bins lat)) = k) xs)"
      by blast
    with step [OF k] show "unat (foldl (count_sample lo w num_bins) bins (a # xs) ! k)
        = unat (bins ! k)
          + length (filter (\<lambda>lat. nat (sint (bin_index lo w num_bins lat)) = k) (a # xs))"
      by (cases "?i = k") simp_all
  qed
qed

lemma sum_list_update_succ:
  assumes "i < length (ns :: nat list)"
  shows "sum_list (ns[i := ns ! i + 1]) = sum_list ns + 1"
  using assms
proof (induction ns arbitrary: i)
  case Nil
  then show ?case by simp
next
  case (Cons a ns)
  then show ?case by (cases i) simp_all
qed

lemma fill_total:
  assumes n: "1 \<le> sint num_bins"
  shows "length bins = nat (sint num_bins) \<Longrightarrow>
    sum_list (map unat bins) + length xs < 2 ^ 32 \<Longrightarrow>
    sum_list (map unat (foldl (count_sample lo w num_bins) bins xs))
      = sum_list (map unat bins) + length xs"
proof (induction xs arbitrary: bins)
  case Nil
  show ?case by simp
next
  case (Cons a xs)
  let ?i = "nat (sint (bin_index lo w num_bins a))"
  let ?bins' = "count_sample lo w num_bins bins a"
  have i: "?i < length bins"
    using bin_slot_in_range [OF n] Cons.prems(1) by simp
  then have "unat (bins ! ?i) \<in> set (map unat bins :: nat list)" by simp
  then have "unat (bins ! ?i) \<le> (sum_list (map unat bins) :: nat)"
    by (rule member_le_sum_list) simp_all
  with Cons.prems(2) have "unat (bins ! ?i) + 1 < 2 ^ 32" by simp
  then have u: "unat (bins ! ?i + 1) = unat (bins ! ?i) + 1" by (rule unat_succ32)
  have m: "map unat ?bins' = (map unat bins)[?i := (map unat bins) ! ?i + 1]"
    using i u by (simp add: count_sample_def Let_def map_update)
  have "sum_list ((map unat bins)[?i := (map unat bins) ! ?i + 1])
      = sum_list (map unat bins) + 1"
    using i by (intro sum_list_update_succ) simp
  then have s: "sum_list (map unat ?bins') = sum_list (map unat bins) + 1"
    by (simp only: m)
  have "sum_list (map unat (foldl (count_sample lo w num_bins) ?bins' xs))
      = sum_list (map unat ?bins') + length xs"
  proof (rule Cons.IH)
    show "length ?bins' = nat (sint num_bins)"
      using Cons.prems(1) by (simp add: length_count_sample)
    show "sum_list (map unat ?bins') + length xs < 2 ^ 32"
      using Cons.prems(2) s by simp
  qed
  with s show ?case by simp
qed

lemma all_equal_identical:
  assumes "latencies \<noteq> []" "\<forall>v\<in>set latencies. v = hd latencies"
  shows "print_histogram latencies num_bins = Inr (AllIdentical (hd latencies div 1000))"
proof -
  from assms(1) obtain first rest where l: "latencies = first # rest"
    by (cases latencies) auto
  with assms(2) have s: "set (first # rest) = {first}" by auto
  have "min_element first rest = first" "max_element first rest = first"
    by (simp_all only: min_element_Min max_element_Max s Min_singleton Max_singleton)
  then show ?thesis by (simp add: l print_histogram_def)
qed

lemma sint_count:
  assumes "unat (b :: 32 word) < 2 ^ 31"
  shows "sint b = int (unat b)"
proof -
  have "uint b = int (unat b)" by simp
  moreover from assms have "int (unat b) < int (2 ^ 31)"
    by (simp only: of_nat_less_iff)
  then have "int (unat b) < 2 ^ 31" by simp
  ultimately show ?thesis by (simp add: sint32_cases)
qed

lemma histogram_result:
  assumes xy: "x \<in> set latencies" "y \<in> set latencies" "x \<noteq> y"
    and n: "1 \<le> sint num_bins"
  shows "print_histogram latencies num_bins
       = Inr (Histogram (width_of latencies num_bins)
           (fill_bins (lowest latencies) (width_of latencies num_bins) num_bins latencies))"
proof -
  from xy(1) obtain first rest where l: "latencies = first # rest"
    by (cases latencies) auto
  have lo: "min_element first rest = lowest (first # rest)"
    and hi: "max_element first rest = highest (first # rest)"
    by (simp_all only: lowest_def highest_def min_element_Min max_element_Max)
  have "lowest latencies \<noteq> highest latencies"
  proof
    assume e: "lowest latencies = highest latencies"
    have "lowest latencies \<le> v \<and> v \<le> highest latencies" if "v \<in> set latencies" for v
      using that by (simp add: lowest_def highest_def)
    with e xy(1,2) have "x = lowest latencies" "y = lowest latencies"
      by (metis order_antisym)+
    with xy(3) show False by simp
  qed
  moreover have "num_bins \<noteq> 0" "\<not> num_bins <s 0"
    using n by (auto simp add: word_sless_alt)
  ultimately show ?thesis
    unfolding l print_histogram_def
    by (simp only: list.case lo hi Let_def width_of_def) simp
qed

lemma sum_list_int_unat:
  "(\<Sum>b\<leftarrow>bs. int (unat (b :: 32 word))) = int (sum_list (map unat bs))"
  by (induction bs) simp_all

text \<open>
  Claim C4, as amended. When all samples are equal, \<^verbatim>\<open>print_histogram\<close> reports the
  single identical value. When two samples differ and \<open>num_bins \<ge> 1\<close>, it returns a
  histogram whose bin width is \<open>max(1, (max - min) div num_bins)\<close> with one counter per bin;
  every sample is counted in one bin, whose index lies in \<open>[0, num_bins - 1]\<close>; for
  \<open>num_bins \<le> 2^30\<close> that index is \<open>clamp((sample - min) div bin_width, 0, num_bins - 1)\<close>;
  and for fewer than \<open>2^31\<close> samples (the counters are \<^verbatim>\<open>int\<close>s) each counter is the
  number of samples with that index and the counters add up to the number of samples.
\<close>

theorem print_histogram_bins:
  "(latencies \<noteq> [] \<and> (\<forall>v\<in>set latencies. v = hd latencies) \<longrightarrow>
      print_histogram latencies num_bins = Inr (AllIdentical (hd latencies div 1000)))
   \<and> (x \<in> set latencies \<and> y \<in> set latencies \<and> x \<noteq> y \<and> 1 \<le> sint num_bins \<longrightarrow>
      (\<exists>bins. print_histogram latencies num_bins
                 = Inr (Histogram (width_of latencies num_bins) bins)
          \<and> length bins = nat (sint num_bins)
          \<and> (length latencies < 2 ^ 31 \<longrightarrow>
               (\<forall>k<nat (sint num_bins). sint (bins ! k)
                   = int (length (filter (\<lambda>lat. bin_of latencies num_bins lat = int k) latencies)))
               \<and> (\<Sum>b\<leftarrow>bins. sint b) = int (length latencies)))
      \<and> uint (width_of latencies num_bins)
          = max 1 ((uint (highest latencies) - uint (lowest latencies)) div sint num_bins)
      \<and> (\<forall>lat\<in>set latencies.
            0 \<le> bin_of latencies num_bins lat \<and> bin_of latencies num_bins lat < sint num_bins
            \<and> (sint num_bins \<le> 2 ^ 30 \<longrightarrow>
                 bin_of latencies num_bins lat
                   = max 0 (min (sint num_bins - 1)
                       ((uint lat - uint (lowest latencies))
                          div uint (width_of latencies num_bins))))))"
proof (intro conjI impI)
  assume "latencies \<noteq> [] \<and> (\<forall>v\<in>set latencies. v = hd latencies)"
  then show "print_histogram latencies num_bins = Inr (AllIdentical (hd latencies div 1000))"
    by (simp add: all_equal_identical)
next
  assume a: "x \<in> set latencies \<and> y \<in> set latencies \<and> x \<noteq> y \<and> 1 \<le> sint num_bins"
  then have n: "1 \<le> sint num_bins" by simp
  let ?lo = "lowest latencies" and ?w = "width_of latencies num_bins"
  let ?bins = "fill_bins ?lo ?w num_bins latencies"
  let ?zero = "replicate (nat (sint num_bins)) (0 :: 32 word)"
  have res: "print_histogram latencies num_bins = Inr (Histogram ?w ?bins)"
    using a by (intro histogram_result [of x _ y]) simp_all
  have len: "length ?bins = nat (sint num_bins)"
    by (simp add: fill_bins_def length_fill)
  have counts: "\<forall>k<nat (sint num_bins). sint (?bins ! k)
        = int (length (filter (\<lambda>lat. bin_of latencies num_bins lat = int k) latencies))"
    and total: "(\<Sum>b\<leftarrow>?bins. sint b) = int (length latencies)"
    if small: "length latencies < 2 ^ 31"
  proof -
    have slot: "(nat (sint (bin_index ?lo ?w num_bins lat)) = k)
        = (bin_of latencies num_bins lat = int k)" for lat k
      using bin_index_in_range [OF n, of ?lo ?w lat] by (auto simp add: bin_of_def)
    have "\<forall>k<length ?zero. unat (foldl (count_sample ?lo ?w num_bins) ?zero latencies ! k)
        = unat (?zero ! k)
          + length (filter (\<lambda>lat. nat (sint (bin_index ?lo ?w num_bins lat)) = k) latencies)"
    proof (rule fill_counts [OF n])
      show "length ?zero = nat (sint num_bins)" by simp
      show "\<forall>k<length ?zero. unat (?zero ! k)
        + length (filter (\<lambda>lat. nat (sint (bin_index ?lo ?w num_bins lat)) = k) latencies)
          < 2 ^ 32"
      proof (intro allI impI)
        fix k assume "k < length ?zero"
        have "length (filter (\<lambda>lat. nat (sint (bin_index ?lo ?w num_bins lat)) = k) latencies)
            \<le> length latencies" by (rule length_filter_le)
        then have "length (filter (\<lambda>lat. nat (sint (bin_index ?lo ?w num_bins lat)) = k) latencies)
            < 2 ^ 31" using small by (rule le_less_trans)
        then show "unat (?zero ! k)
          + length (filter (\<lambda>lat. nat (sint (bin_index ?lo ?w num_bins lat)) = k) latencies)
            < 2 ^ 32"
          using \<open>k < length ?zero\<close> by simp
      qed
    qed
    then have u: "unat (?bins ! k)
        = length (filter (\<lambda>lat. bin_of latencies num_bins lat = int k) latencies)"
      if "k < nat (sint num_bins)" for k
      using that by (simp add: fill_bins_def slot)
    show "\<forall>k<nat (sint num_bins). sint (?bins ! k)
        = int (length (filter (\<lambda>lat. bin_of latencies num_bins lat = int k) latencies))"
    proof (intro allI impI)
      fix k assume k: "k < nat (sint num_bins)"
      have "length (filter (\<lambda>lat. bin_of latencies num_bins lat = int k) latencies)
          \<le> length latencies" by (rule length_filter_le)
      then have "length (filter (\<lambda>lat. bin_of latencies num_bins lat = int k) latencies) < 2 ^ 31"
        using small by (rule le_less_trans)
      with u [OF k] have "unat (?bins ! k) < 2 ^ 31" by simp
      then have "sint (?bins ! k) = int (unat (?bins ! k))" by (rule sint_count)
      with u [OF k] show "sint (?bins ! k)
          = int (length (filter (\<lambda>lat. bin_of latencies num_bins lat = int k) latencies))"
        by simp
    qed
    have t: "sum_list (map unat ?bins) = length latencies"
      using fill_total [OF n, of ?zero latencies ?lo ?w] small
      by (simp add: fill_bins_def sum_list_replicate)
    have "sint b = int (unat b)" if "b \<in> set ?bins" for b
    proof -
      from that have "unat b \<in> set (map unat ?bins :: nat list)" by simp
      then have "unat b \<le> (sum_list (map unat ?bins) :: nat)"
        by (rule member_le_sum_list) simp_all
      with t small have "unat b < 2 ^ 31" by simp
      then show ?thesis by (rule sint_count)
    qed
    then have m: "map sint ?bins = map (\<lambda>b. int (unat b)) ?bins"
      by (intro map_cong) simp_all
    have "(\<Sum>b\<leftarrow>?bins. sint b) = (\<Sum>b\<leftarrow>?bins. int (unat b))"
      by (simp only: m)
    also have "\<dots> = int (sum_list (map unat ?bins))"
      by (rule sum_list_int_unat)
    finally show "(\<Sum>b\<leftarrow>?bins. sint b) = int (length latencies)"
      by (simp add: t)
  qed
  from res len counts total
  show "\<exists>bins. print_histogram latencies num_bins = Inr (Histogram ?w bins)
          \<and> length bins = nat (sint num_bins)
          \<and> (length latencies < 2 ^ 31 \<longrightarrow>
               (\<forall>k<nat (sint num_bins). sint (bins ! k)
                   = int (length (filter (\<lambda>lat. bin_of latencies num_bins lat = int k) latencies)))
               \<and> (\<Sum>b\<leftarrow>bins. sint b) = int (length latencies))"
    by blast
  show "uint ?w = max 1 ((uint (highest latencies) - uint ?lo) div sint num_bins)"
  proof -
    from a have "x \<in> set latencies" by simp
    then have "?lo \<le> highest latencies"
      by (auto simp add: lowest_def highest_def intro: order_trans [of _ x])
    then have "uint (highest latencies - ?lo) = uint (highest latencies) - uint ?lo"
      by (simp add: uint_sub_lem [symmetric] word_le_def)
    with n show ?thesis by (simp add: width_of_def hist_bin_width_value)
  qed
  show "\<forall>lat\<in>set latencies.
            0 \<le> bin_of latencies num_bins lat \<and> bin_of latencies num_bins lat < sint num_bins
            \<and> (sint num_bins \<le> 2 ^ 30 \<longrightarrow>
                 bin_of latencies num_bins lat
                   = max 0 (min (sint num_bins - 1)
                       ((uint lat - uint ?lo) div uint ?w)))"
  proof (intro ballI conjI impI)
    fix lat assume lat: "lat \<in> set latencies"
    show "0 \<le> bin_of latencies num_bins lat" "bin_of latencies num_bins lat < sint num_bins"
      using bin_index_in_range [OF n, of ?lo ?w lat] by (simp_all add: bin_of_def)
    assume "sint num_bins \<le> 2 ^ 30"
    moreover have "?lo \<le> lat" "lat \<le> highest latencies"
      using lat by (simp_all add: lowest_def highest_def)
    ultimately show "bin_of latencies num_bins lat
        = max 0 (min (sint num_bins - 1) ((uint lat - uint ?lo) div uint ?w))"
      using n unfolding bin_of_def width_of_def by (intro bin_index_clamp) simp_all
  qed
qed

text \<open>
  The theorem at five samples in three bins of width 300 (the largest sample computes
  index 3 and is clamped into bin 2), and at two equal samples.
\<close>

theorem print_histogram_bins_witness:
  "print_histogram [100, 200, 300, 1000, 1001] 3 = Inr (Histogram 300 [3, 0, 2])
   \<and> (\<Sum>b\<leftarrow>[3, 0, 2 :: 32 word]. sint b) = 5
   \<and> bin_of [100, 200, 300, 1000, 1001] 3 1001 = 2
   \<and> print_histogram [5000, 5000] 15 = Inr (AllIdentical 5)"
proof -
  let ?L = "[100, 200, 300, 1000, 1001] :: 64 word list"
  have e: "print_histogram ?L 3 = Inr (Histogram 300 [3, 0, 2])"
    by code_simp
  have lo: "lowest ?L = 100" and w: "uint (width_of ?L 3) = 300"
    by (simp_all add: lowest_def highest_def width_of_def hist_bin_width_def)
  have h: "100 \<in> set ?L \<and> 200 \<in> set ?L \<and> (100 :: 64 word) \<noteq> 200 \<and> 1 \<le> sint (3 :: 32 word)"
    by simp
  note t = print_histogram_bins [of ?L 3 100 200, THEN conjunct2, rule_format, OF h]
  from t obtain bins where "print_histogram ?L 3 = Inr (Histogram (width_of ?L 3) bins)"
    and "length ?L < 2 ^ 31 \<longrightarrow> (\<Sum>b\<leftarrow>bins. sint b) = int (length ?L)"
    by blast
  with e have s: "(\<Sum>b\<leftarrow>[3, 0, 2 :: 32 word]. sint b) = 5" by simp
  from t have "\<forall>lat\<in>set ?L. sint (3 :: 32 word) \<le> 2 ^ 30 \<longrightarrow> bin_of ?L 3 lat
      = max 0 (min (sint (3 :: 32 word) - 1) ((uint lat - uint (lowest ?L)) div uint (width_of ?L 3)))"
    by blast
  then have b: "bin_of ?L 3 1001 = 2" by (simp add: lo w)
  have "[5000, 5000 :: 64 word] \<noteq> [] \<and> (\<forall>v\<in>set [5000, 5000 :: 64 word]. v = hd [5000, 5000])"
    by simp
  with print_histogram_bins [of "[5000, 5000]" 15, THEN conjunct1]
  have i: "print_histogram [5000, 5000] 15 = Inr (AllIdentical (hd [5000, 5000] div 1000))"
    by blast
  from e s b i show ?thesis by simp
qed

text \<open>
  For every bin count the clamp formula fails: with \<open>2^30 + 1\<close> bins and the samples 0
  and \<open>2^31 + 1\<close> the bin width is 1, the quotient \<open>2^31 + 1\<close> of the larger sample
  becomes the negative \<^verbatim>\<open>int\<close> \<open>-(2^31 - 1)\<close>, and the second guard puts the sample
  into bin 0, where the formula gives the last bin.
\<close>

theorem print_histogram_bins_counterexample:
  "1 \<le> sint (1073741825 :: 32 word)
   \<and> lowest [0, 2147483649] = 0 \<and> highest [0, 2147483649] = 2147483649
   \<and> width_of [0, 2147483649] 1073741825 = 1
   \<and> bin_of [0, 2147483649] 1073741825 2147483649 = 0
   \<and> max 0 (min (sint (1073741825 :: 32 word) - 1)
        ((uint (2147483649 :: 64 word) - uint (lowest [0, 2147483649]))
           div uint (width_of [0, 2147483649] 1073741825))) = 1073741824"
proof -
  have lh: "lowest [0, 2147483649] = 0" "highest [0, 2147483649] = 2147483649"
    by (simp_all add: lowest_def highest_def)
  have w: "width_of [0, 2147483649] 1073741825 = 1"
    by (simp add: width_of_def lh hist_bin_width_def)
  have b: "bin_of [0, 2147483649] 1073741825 2147483649 = 0"
    by (simp add: bin_of_def lh w bin_index_def word_sless_alt word_sle_eq)
  show ?thesis by (simp add: lh w b)
qed

section \<open>Rounding to binary64\<close>

lemma bitlen_bounds_rat:
  assumes "0 < a"
  shows "2 powi (bitlen a - 1) \<le> (of_int a :: rat) \<and> (of_int a :: rat) < 2 powi (bitlen a)"
proof -
  from assms have pos: "1 \<le> bitlen a"
    using bitlen_eq_zero_iff [of a] bitlen_nonneg [of a] by linarith
  from bitlen_bounds [OF assms]
  have lo: "2 ^ nat (bitlen a - 1) \<le> a" and hi: "a < 2 ^ nat (bitlen a)" by simp_all
  have "(of_int (2 ^ nat (bitlen a - 1)) :: rat) \<le> of_int a"
    using lo by (simp only: of_int_le_iff)
  then have l: "(2 :: rat) ^ nat (bitlen a - 1) \<le> of_int a" by simp
  have "(of_int a :: rat) < of_int (2 ^ nat (bitlen a))"
    using hi by (simp only: of_int_less_iff)
  then have h: "(of_int a :: rat) < 2 ^ nat (bitlen a)" by simp
  have "(2 :: rat) powi (bitlen a - 1) = 2 ^ nat (bitlen a - 1)"
    using pos by (simp add: power_int_nonneg_exp)
  moreover have "(2 :: rat) powi (bitlen a) = 2 ^ nat (bitlen a)"
    using pos by (simp add: power_int_nonneg_exp)
  ultimately show ?thesis using l h by simp
qed


lemma ilog2_bounds:
  assumes "0 < x"
  shows "2 powi (ilog2 x) \<le> x \<and> x < 2 powi (ilog2 x + 1)"
proof -
  obtain a b where q: "quotient_of x = (a, b)" by (cases "quotient_of x")
  then have b: "0 < b" and x: "x = of_int a / of_int b"
    by (simp_all add: quotient_of_denom_pos quotient_of_div)
  from assms have a: "0 < a"
    using b by (simp add: x zero_less_divide_iff)
  let ?k = "bitlen a - bitlen b"
  from bitlen_bounds_rat [OF a]
  have al: "2 powi (bitlen a - 1) \<le> (of_int a :: rat)" and ah: "(of_int a :: rat) < 2 powi (bitlen a)"
    by simp_all
  from bitlen_bounds_rat [OF b]
  have bl: "2 powi (bitlen b - 1) \<le> (of_int b :: rat)" and bh: "(of_int b :: rat) < 2 powi (bitlen b)"
    by simp_all
  have bpos: "(0 :: rat) < of_int b" using b by simp
  have apos: "(0 :: rat) < of_int a" using a by simp
  have up: "x < 2 powi (?k + 1)"
  proof -
    have "x * 2 powi (bitlen b - 1) \<le> x * of_int b"
      using bl assms by (intro mult_left_mono) simp_all
    also have "\<dots> = of_int a" using bpos by (simp add: x)
    also have "\<dots> < 2 powi (bitlen a)" by (rule ah)
    also have "\<dots> = 2 powi (?k + 1) * 2 powi (bitlen b - 1)"
      by (simp add: power_int_add [symmetric])
    finally show ?thesis by simp
  qed
  have low: "2 powi (?k - 1) < x"
  proof -
    have "(2 :: rat) powi (?k - 1) * of_int b < 2 powi (?k - 1) * 2 powi (bitlen b)"
      using bh by (intro mult_strict_left_mono) simp_all
    also have "\<dots> = 2 powi (bitlen a - 1)"
      by (simp add: power_int_add [symmetric])
    also have "\<dots> \<le> of_int a" by (rule al)
    also have "\<dots> = x * of_int b" using bpos by (simp add: x)
    finally show ?thesis using bpos by simp
  qed
  show ?thesis
  proof (cases "2 powi ?k \<le> x")
    case True
    then have "ilog2 x = ?k" by (simp add: ilog2_def q)
    with True up show ?thesis by simp
  next
    case False
    then have "ilog2 x = ?k - 1" by (simp add: ilog2_def q)
    with False low show ?thesis by simp
  qed
qed

lemma ilog2_small:
  assumes "0 < x" "x < 2 ^ 53"
  shows "ilog2 x \<le> 52"
proof (rule ccontr)
  assume "\<not> ilog2 x \<le> 52"
  then have "53 \<le> ilog2 x" by simp
  then have "(2 :: rat) powi 53 \<le> 2 powi (ilog2 x)"
    by (intro power_int_increasing) simp_all
  also have "\<dots> \<le> x" using ilog2_bounds [OF assms(1)] by simp
  finally show False using assms(2) by simp
qed

lemma round_half_even_ge_floor: "\<lfloor>m\<rfloor> \<le> round_half_even m"
  by (simp add: round_half_even_def Let_def)

lemma round_half_even_nonneg: "0 \<le> m \<Longrightarrow> 0 \<le> round_half_even m"
  using round_half_even_ge_floor [of m] by (simp add: order_trans [of 0 "\<lfloor>m\<rfloor>"])

lemma round_half_even_le:
  assumes "m \<le> of_int Y"
  shows "round_half_even m \<le> Y"
proof -
  have f: "\<lfloor>m\<rfloor> \<le> Y" using assms by (simp add: floor_le_iff)
  show ?thesis
  proof (cases "m - of_int \<lfloor>m\<rfloor> < 1 / 2")
    case True
    with f show ?thesis by (simp add: round_half_even_def Let_def)
  next
    case False
    then have "of_int \<lfloor>m\<rfloor> < m" by simp
    then have "(of_int \<lfloor>m\<rfloor> :: rat) < of_int Y" using assms by (rule less_le_trans)
    then have "\<lfloor>m\<rfloor> < Y" by (simp only: of_int_less_iff)
    then have "\<lfloor>m\<rfloor> + 1 \<le> Y" by simp
    with f show ?thesis by (simp add: round_half_even_def Let_def)
  qed
qed

lemma round_half_even_of_int: "round_half_even (of_int M) = M"
  by (simp add: round_half_even_def Let_def)

lemma quantum_small:
  assumes "0 < x" "x < 2 ^ 53"
  shows "\<exists>n. (2 :: rat) powi (max (ilog2 \<bar>x\<bar> - 52) (- 1074)) = 1 / 2 ^ n"
proof -
  let ?g = "max (ilog2 \<bar>x\<bar> - 52) (- 1074)"
  have "ilog2 x \<le> 52" using assms by (rule ilog2_small)
  with assms(1) have g: "?g \<le> 0" by simp
  then have "(2 :: rat) powi ?g = 1 / 2 powi (- ?g)"
    by (simp add: power_int_minus_divide)
  also have "\<dots> = 1 / 2 ^ nat (- ?g)"
    using g by (simp add: power_int_nonneg_exp)
  finally show ?thesis by blast
qed

lemma round_to_double_nonneg:
  assumes "0 \<le> x"
  shows "0 \<le> round_to_double x"
proof (cases "x = 0")
  case True
  then show ?thesis by (simp add: round_to_double_def)
next
  case False
  let ?q = "(2 :: rat) powi (max (ilog2 \<bar>x\<bar> - 52) (- 1074))"
  have q: "0 < ?q" by simp
  with assms have "0 \<le> x / ?q" by simp
  then have "0 \<le> round_half_even (x / ?q)" by (rule round_half_even_nonneg)
  with q False show ?thesis by (simp add: round_to_double_def Let_def)
qed

lemma round_to_double_le_int:
  assumes "0 < x" "x < 2 ^ 53" "x \<le> of_int Y"
  shows "round_to_double x \<le> of_int Y"
proof -
  let ?q = "(2 :: rat) powi (max (ilog2 \<bar>x\<bar> - 52) (- 1074))"
  from quantum_small [OF assms(1,2)] obtain n where q: "?q = 1 / 2 ^ n" by blast
  have "x / ?q = x * 2 ^ n" by (simp add: q)
  also have "\<dots> \<le> of_int Y * 2 ^ n" using assms(3) by simp
  also have "\<dots> = of_int (Y * 2 ^ n)" by simp
  finally have "round_half_even (x / ?q) \<le> Y * 2 ^ n" by (rule round_half_even_le)
  then have "(of_int (round_half_even (x / ?q)) :: rat) \<le> of_int (Y * 2 ^ n)"
    by (simp only: of_int_le_iff)
  then have "of_int (round_half_even (x / ?q)) * ?q \<le> of_int (Y * 2 ^ n) * ?q"
    by (intro mult_right_mono) simp_all
  also have "of_int (Y * 2 ^ n) * ?q = of_int Y" by (simp add: q)
  finally show ?thesis using assms(1) by (simp add: round_to_double_def Let_def)
qed

lemma round_to_double_int:
  assumes "0 \<le> M" "M < 2 ^ 53"
  shows "round_to_double (of_int M) = of_int M"
proof (cases "M = 0")
  case True
  then show ?thesis by (simp add: round_to_double_def)
next
  case False
  let ?x = "of_int M :: rat"
  let ?q = "(2 :: rat) powi (max (ilog2 \<bar>?x\<bar> - 52) (- 1074))"
  from False assms(1) have pos: "0 < ?x" by simp
  have "?x < of_int (2 ^ 53)" using assms(2) by (simp only: of_int_less_iff)
  then have small: "?x < 2 ^ 53" by simp
  from quantum_small [OF pos small] obtain n where q: "?q = 1 / 2 ^ n" by blast
  have "?x / ?q = of_int (M * 2 ^ n)" by (simp add: q)
  then have "round_half_even (?x / ?q) = M * 2 ^ n"
    by (simp only: round_half_even_of_int)
  then have "of_int (round_half_even (?x / ?q)) * ?q = ?x" by (simp add: q)
  with False show ?thesis by (simp add: round_to_double_def Let_def)
qed

section \<open>Percentile\<close>

lemma fdiv_percent:
  assumes "0 \<le> p" "p \<le> 100"
  shows "0 \<le> fdiv p 100 \<and> fdiv p 100 \<le> 1"
proof (cases "p = 0")
  case True
  then show ?thesis by (simp add: fdiv_def round_to_double_def)
next
  case False
  with assms have x: "0 < p / 100" "p / 100 \<le> of_int 1" by simp_all
  then have "p / 100 < 2 ^ 53" by simp
  with x have "round_to_double (p / 100) \<le> of_int 1"
    by (intro round_to_double_le_int) simp_all
  moreover have "0 \<le> round_to_double (p / 100)"
    using assms(1) by (intro round_to_double_nonneg) simp
  ultimately show ?thesis by (simp add: fdiv_def)
qed

lemma size_to_double_exact:
  assumes "m < 2 ^ 53"
  shows "size_to_double m = of_nat m"
proof -
  have "int m < int (2 ^ 53)" using assms by (simp only: of_nat_less_iff)
  then have "int m < 2 ^ 53" by simp
  then have "round_to_double (of_int (int m)) = of_int (int m)"
    by (intro round_to_double_int) simp_all
  then show ?thesis by (simp add: size_to_double_def)
qed

lemma fmul_fraction:
  assumes "0 \<le> q" "q \<le> 1" "m < 2 ^ 53"
  shows "0 \<le> fmul q (of_nat m) \<and> fmul q (of_nat m) \<le> of_nat m"
proof -
  define x where "x = q * of_nat m"
  have x0: "0 \<le> x" using assms(1) by (simp add: x_def)
  have xm: "x \<le> of_nat m" using assms(1,2) by (simp add: x_def mult_left_le_one_le)
  have "(of_nat m :: rat) < of_nat (2 ^ 53)" using assms(3) by (simp only: of_nat_less_iff)
  then have m: "(of_nat m :: rat) < 2 ^ 53" by simp
  have nn: "0 \<le> round_to_double x" using x0 by (rule round_to_double_nonneg)
  have "round_to_double x \<le> of_nat m"
  proof (cases "x = 0")
    case True
    then show ?thesis by (simp add: round_to_double_def)
  next
    case False
    with x0 have pos: "0 < x" by simp
    from xm m have small: "x < 2 ^ 53" by (rule le_less_trans)
    from xm have "x \<le> of_int (int m)" by simp
    with pos small have "round_to_double x \<le> of_int (int m)"
      by (intro round_to_double_le_int)
    then show ?thesis by simp
  qed
  with nn show ?thesis by (simp add: fmul_def x_def)
qed

lemma percentile_index_bounds:
  assumes "0 \<le> p" "p \<le> 100" "len = Suc m" "len \<le> 2 ^ 53"
  shows "0 \<le> percentile_index p len \<and> percentile_index p len \<le> int m"
proof -
  from assms(3,4) have m: "m < 2 ^ 53" by simp
  have q: "0 \<le> fdiv p 100" "fdiv p 100 \<le> 1"
    using fdiv_percent [OF assms(1,2)] by simp_all
  define v where "v = fmul (fdiv p 100) (of_nat m)"
  from fmul_fraction [OF q m] have v: "0 \<le> v" "v \<le> of_nat m"
    by (simp_all add: v_def)
  from v(2) have "\<lfloor>v\<rfloor> \<le> int m" by (simp add: floor_le_iff)
  moreover from v(1) have "0 \<le> \<lfloor>v\<rfloor>" by simp
  moreover have "percentile_index p len = \<lfloor>v\<rfloor>"
    using v(1) by (simp add: percentile_index_def double_to_size_def assms(3)
        size_to_double_exact [OF m] v_def)
  ultimately show ?thesis by simp
qed


lemma percentile_index_exact:
  assumes "len = Suc m" "len \<le> 2 ^ 53" "0 \<le> p"
    and "round_to_double (p / 100) = p / 100"
    and "round_to_double (p / 100 * of_nat m) = p / 100 * of_nat m"
  shows "percentile_index p len = \<lfloor>p / 100 * of_nat m\<rfloor>"
proof -
  from assms(1,2) have m: "m < 2 ^ 53" by simp
  define v where "v = p / 100 * of_nat m"
  have v0: "0 \<le> v" using assms(3) by (simp add: v_def)
  have e: "fmul (fdiv p 100) (size_to_double m) = v"
    unfolding fmul_def fdiv_def size_to_double_exact [OF m] assms(4) assms(5) v_def ..
  have "percentile_index p len = double_to_size v"
    by (simp add: percentile_index_def assms(1) e)
  also have "\<dots> = \<lfloor>v\<rfloor>" using v0 by (simp add: double_to_size_def)
  finally show ?thesis by (simp only: v_def)
qed


lemma calculate_percentile_in_range:
  assumes "latencies \<noteq> []" "length latencies \<le> 2 ^ 53" "0 \<le> p" "p \<le> 100"
  shows "calculate_percentile latencies p
       = Some (sort latencies, sort latencies ! nat (percentile_index p (length latencies)))"
    and "0 \<le> percentile_index p (length latencies)"
    and "percentile_index p (length latencies) \<le> int (length latencies) - 1"
proof -
  from assms(1) obtain m where n: "length latencies = Suc m"
    by (cases latencies) auto
  from percentile_index_bounds [OF assms(3,4) n assms(2)]
  show b: "0 \<le> percentile_index p (length latencies)"
    "percentile_index p (length latencies) \<le> int (length latencies) - 1"
    by (simp_all add: n)
  then have "percentile_index p (length latencies) < int (length latencies)" by simp
  with b(1) assms(1) show "calculate_percentile latencies p
       = Some (sort latencies, sort latencies ! nat (percentile_index p (length latencies)))"
    by (simp add: calculate_percentile_def Let_def)
qed

text \<open>
  Claim C5, as amended. For a non-empty list of at most \<open>2^53\<close> samples and a percentile
  \<open>p\<close> in \<open>[0, 100]\<close>, \<^verbatim>\<open>calculate_percentile\<close> sorts the list ascending (same
  elements) and returns the element at the index computed in double precision: the
  product of the rounded quotient \<open>p / 100\<close> with \<open>count - 1\<close>, rounded and truncated. No
  interpolation takes place. Whenever the quotient and the product are doubles themselves
  (no rounding), the index is \<open>floor((p / 100) * (count - 1))\<close>; so it is for
  \<open>[100, 200, 300, 400]\<close> and \<open>p = 50\<close>: index \<open>floor(0.5 * 3) = 1\<close>, element 200.
\<close>

theorem calculate_percentile_nearest_rank:
  "(latencies \<noteq> [] \<and> length latencies \<le> 2 ^ 53 \<and> 0 \<le> p \<and> p \<le> 100 \<longrightarrow>
      calculate_percentile latencies p
        = Some (sort latencies, sort latencies ! nat (percentile_index p (length latencies)))
      \<and> sorted (sort latencies) \<and> mset (sort latencies) = mset latencies
      \<and> (round_to_double (p / 100) = p / 100
          \<and> round_to_double (p / 100 * of_nat (length latencies - 1))
              = p / 100 * of_nat (length latencies - 1)
         \<longrightarrow> percentile_index p (length latencies)
              = \<lfloor>p / 100 * of_nat (length latencies - 1)\<rfloor>))
   \<and> calculate_percentile [100, 200, 300, 400] 50 = Some ([100, 200, 300, 400], 200)
   \<and> percentile_index 50 4 = \<lfloor>(50 :: rat) / 100 * 3\<rfloor>
   \<and> \<lfloor>(50 :: rat) / 100 * 3\<rfloor> = 1"
proof (intro conjI impI)
  assume a: "latencies \<noteq> [] \<and> length latencies \<le> 2 ^ 53 \<and> 0 \<le> p \<and> p \<le> 100"
  then show "calculate_percentile latencies p
        = Some (sort latencies, sort latencies ! nat (percentile_index p (length latencies)))"
    by (intro calculate_percentile_in_range) simp_all
  show "sorted (sort latencies)" by simp
  show "mset (sort latencies) = mset latencies" by simp
  assume e: "round_to_double (p / 100) = p / 100
          \<and> round_to_double (p / 100 * of_nat (length latencies - 1))
              = p / 100 * of_nat (length latencies - 1)"
  from a obtain m where n: "length latencies = Suc m"
    by (cases latencies) auto
  from a e show "percentile_index p (length latencies)
              = \<lfloor>p / 100 * of_nat (length latencies - 1)\<rfloor>"
    using percentile_index_exact [OF n, of p] by (simp add: n)
next
  show "calculate_percentile [100, 200, 300, 400] 50 = Some ([100, 200, 300, 400], 200)"
    by code_simp
  show "percentile_index 50 4 = \<lfloor>(50 :: rat) / 100 * 3\<rfloor>"
    by code_simp
  show "\<lfloor>(50 :: rat) / 100 * 3\<rfloor> = 1"
    by code_simp
qed

text \<open>The theorem at four unsorted samples and \<open>p = 25\<close>: \<open>0.25\<close> and \<open>0.75\<close> are doubles.\<close>

theorem calculate_percentile_nearest_rank_witness:
  "calculate_percentile [400, 100, 300, 200] 25 = Some ([100, 200, 300, 400], 100)
   \<and> percentile_index 25 (length [400, 100, 300, 200 :: 64 word]) = 0"
proof -
  let ?L = "[400, 100, 300, 200] :: 64 word list"
  have h: "?L \<noteq> [] \<and> length ?L \<le> 2 ^ 53 \<and> (0 :: rat) \<le> 25 \<and> (25 :: rat) \<le> 100"
    by simp
  have r: "round_to_double (25 / 100) = 25 / 100
      \<and> round_to_double (25 / 100 * of_nat (length ?L - 1)) = 25 / 100 * of_nat (length ?L - 1)"
    by code_simp
  note t = calculate_percentile_nearest_rank [of ?L 25, THEN conjunct1, rule_format, OF h]
  from t r have i: "percentile_index 25 (length ?L) = \<lfloor>(25 :: rat) / 100 * of_nat (length ?L - 1)\<rfloor>"
    by blast
  have "\<lfloor>(25 :: rat) / 100 * of_nat (length ?L - 1)\<rfloor> = 0" by code_simp
  with i have i0: "percentile_index 25 (length ?L) = 0" by (simp only:)
  have s: "sort ?L = [100, 200, 300, 400]" by code_simp
  from t have "calculate_percentile ?L 25
      = Some (sort ?L, sort ?L ! nat (percentile_index 25 (length ?L)))" by blast
  with i0 s show ?thesis by simp
qed

text \<open>
  With the exact index \<open>floor((p / 100) * (count - 1))\<close> the claim fails: for the 51
  samples \<open>0, 1, ..., 50\<close> (in this order) and \<open>p = 58\<close> the exact index is \<open>floor(0.58 * 50) = 29\<close>, but
  \<^verbatim>\<open>58 / 100.0\<close> rounds below \<open>0.58\<close>, the product rounds to \<open>28.999999999999996\<close>, and
  the program returns the element at index 28.
\<close>

theorem calculate_percentile_counterexample:
  "calculate_percentile (map of_nat [0..<51]) 58 = Some (map of_nat [0..<51], 28)
   \<and> length (map of_nat [0..<51] :: 64 word list) = 51
   \<and> \<lfloor>(58 :: rat) / 100 * (51 - 1)\<rfloor> = 29
   \<and> sort (map of_nat [0..<51] :: 64 word list) ! 29 = 29"
proof (intro conjI)
  show "calculate_percentile (map of_nat [0..<51]) 58 = Some (map of_nat [0..<51], 28)"
    by code_simp
  show "length (map of_nat [0..<51] :: 64 word list) = 51"
    by simp
  show "\<lfloor>(58 :: rat) / 100 * (51 - 1)\<rfloor> = 29"
    by code_simp
  show "sort (map of_nat [0..<51] :: 64 word list) ! 29 = 29"
    by code_simp
qed




end
